theory Spec2Isabelle
  imports Main "HOL-Library.AList"
begin

section \<open>The Setup command of mailpile/plugins/setup\_magic.py\<close>

text \<open>
  The command \<^verbatim>\<open>Setup.command\<close> mutates the session's configuration in place, calls a
  number of collaborators (migrations, the tag commands, GnuPG, the file system) and
  either returns a result or lets a Python exception escape. The embedding makes all of
  that explicit:
  \<^item> the configuration is a record, passed in and returned;
  \<^item> everything the command reads from outside the configuration is a field of the
    environment record \<open>env\<close>, collaborators included;
  \<^item> saving, reloading and the messages sent to the user interface are recorded in an
    event list, in the order of the calls;
  \<^item> an escaping exception is the value \<open>Inl (e, w)\<close>, with the world \<open>w\<close> as it was when
    the exception was raised (the in-place mutations made until then stay).
\<close>

subsection \<open>Python values\<close>

datatype pyval = Str string | Bool bool | Num int

text \<open>A dict literal, in the order of its items.\<close>

type_synonym attrs = "(string \<times> pyval) list"

datatype exn = KeyError string | AttributeError string | Failure string

text \<open>
  Python's \<^verbatim>\<open><=\<close> on two byte strings: lexicographic on the character codes, a proper
  prefix being smaller.
\<close>

fun py_str_le :: "string \<Rightarrow> string \<Rightarrow> bool" where
  "py_str_le [] ys = True"
| "py_str_le (x # xs) [] = False"
| "py_str_le (x # xs) (y # ys) =
     (if (of_char x :: nat) < of_char y then True
      else if (of_char x :: nat) = of_char y then py_str_le xs ys
      else False)"

text \<open>
  \<^verbatim>\<open>d.update(other)\<close>: every item of \<open>other\<close> is stored in \<open>d\<close>, in order; an item whose
  key is there already replaces the value, the other items of \<open>d\<close> stay.
\<close>

definition dict_update :: "attrs \<Rightarrow> attrs \<Rightarrow> attrs" where
  "dict_update d other = fold (\<lambda>(a, v). AList.update a v) other d"

subsection \<open>The configuration\<close>

record profile =
  profile_email :: string
  profile_name :: string

record autotag_rule =
  match_tag :: string
  unsure_tag :: string
  tagger :: string
  trainer :: string
  exclude_tags :: "string list"

text \<open>
  The part of \<^verbatim>\<open>session.config\<close> that the command reads or writes. The tag store is the
  list of the tags, each with the key it is found under and its attribute dict.
\<close>

record config =
  lockdown :: bool
  plugins :: "string list"
  tags :: "(string \<times> attrs) list"
  gravatar :: "attrs list"
  gpg :: "attrs list"
  autotag :: "autotag_rule list"
  profiles :: "profile list"
  gpg_recipient :: string
  crypto_policy :: string
  obfuscate_index :: string
  index_encrypted :: bool

datatype event = Notify string | Warning string | Save | Load

text \<open>
  The world of one run: the configuration in memory, the configuration last saved, and
  the events so far.
\<close>

record world =
  cfg :: config
  disk :: config
  events :: "event list"

datatype result = Success string | Error string

type_synonym 'a outcome = "(exn \<times> world) + 'a"

subsection \<open>What GnuPG lists\<close>

text \<open>
  A user identity and the details of a secret key are dicts; a field the source tests
  with \<^verbatim>\<open>in\<close> or reads with \<^verbatim>\<open>[...]\<close> is optional here, so that reading a missing one
  is the \<^verbatim>\<open>KeyError\<close> Python raises.
\<close>

record uid =
  uid_email :: "string option"
  uid_name :: "string option"

record key_details =
  revocation_date :: "string option"
  uids :: "uid list option"
  capabilities :: "(string \<times> bool) list option"

subsection \<open>The environment\<close>

text \<open>
  The three tag operations the command calls are not part of this file of the
  repository: \<^verbatim>\<open>config.get_tag_id(t)\<close>, \<^verbatim>\<open>AddTag(session, arg=[t]).run(save=False)\<close> and
  \<^verbatim>\<open>config.get_tag(t).update(d)\<close>. They are parameters, and the last two may raise.
\<close>

record tag_api =
  get_tag_id :: "(string \<times> attrs) list \<Rightarrow> string \<Rightarrow> string option"
  AddTag_run :: "(string \<times> attrs) list \<Rightarrow> string \<Rightarrow> exn + (string \<times> attrs) list"
  get_tag_update :: "(string \<times> attrs) list \<Rightarrow> string \<Rightarrow> attrs \<Rightarrow> exn + (string \<times> attrs) list"

text \<open>
  \<^item> \<open>PLUGINS\<close> is \<^verbatim>\<open>mailpile.plugins.__all__\<close>; \<open>sig_STATUSES\<close> and \<open>enc_STATUSES\<close> are
    \<^verbatim>\<open>SignatureInfo.STATUSES\<close> and \<^verbatim>\<open>EncryptionInfo.STATUSES\<close>;
  \<^item> \<open>migrate before_setup after_setup\<close> is \<^verbatim>\<open>Migrate(session).run(...)\<close> and
    \<open>open_local_mailbox\<close> is \<^verbatim>\<open>config.open_local_mailbox(session)\<close>, both as
    transformers of the configuration;
  \<^item> \<open>autotag_sb_importable\<close> says whether \<^verbatim>\<open>import mailpile.plugins.autotag_sb\<close> succeeds;
  \<^item> \<open>expanduser\<close> and \<open>path_exists\<close> are the two \<^verbatim>\<open>os.path\<close> functions;
  \<^item> \<open>gnupg_available\<close> and \<open>secret_keys\<close> are \<^verbatim>\<open>GnuPG().is_available()\<close> and the items of
    \<^verbatim>\<open>list_secret_keys()\<close> in the order \<^verbatim>\<open>iteritems()\<close> yields them;
  \<^item> \<open>today\<close> is \<^verbatim>\<open>date.today().strftime("%Y-%m-%d")\<close>;
  \<^item> \<open>index_built\<close> is the truth value of \<^verbatim>\<open>self._idx() and self._idx().INDEX\<close>;
  \<^item> \<open>urandom\<close> is what \<^verbatim>\<open>open('/dev/urandom').read(1024)\<close> returns and \<open>time_time\<close> is
    the text \<^verbatim>\<open>'%s' % time.time()\<close>, both for this run;
  \<^item> \<open>sha512 data i\<close> is the byte at index \<open>i\<close> of the SHA-512 digest of \<open>data\<close>.
\<close>

record env =
  PLUGINS :: "string list"
  sig_STATUSES :: "string list"
  enc_STATUSES :: "string list"
  tag_ops :: tag_api
  migrate :: "bool \<Rightarrow> bool \<Rightarrow> config \<Rightarrow> config"
  open_local_mailbox :: "config \<Rightarrow> config"
  autotag_sb_importable :: bool
  expanduser :: "string \<Rightarrow> string"
  path_exists :: "string \<Rightarrow> bool"
  gnupg_available :: bool
  secret_keys :: "(string \<times> key_details) list"
  today :: string
  index_built :: bool
  urandom :: string
  time_time :: string
  sha512 :: "string \<Rightarrow> nat \<Rightarrow> nat"

subsection \<open>The table of standard tags\<close>

text \<open>
  \<^verbatim>\<open>Setup.TAGS\<close>, in the order of the source text (the loop follows the dict's own
  iteration order, which Python fixes per table but does not document). The function
  \<^verbatim>\<open>_\<close> is gettext; without a catalogue it returns its argument, which is what the table
  holds here.
\<close>

definition TAGS :: "(string \<times> attrs) list" where
  "TAGS =
   [(''New'', [(''type'', Str ''unread''), (''label'', Bool False),
       (''display'', Str ''invisible''), (''icon'', Str ''icon-new''),
       (''label_color'', Str ''03-gray-dark''), (''name'', Str ''New'')]),
    (''Inbox'', [(''type'', Str ''inbox''), (''display'', Str ''priority''),
       (''display_order'', Num 2), (''icon'', Str ''icon-inbox''),
       (''label_color'', Str ''06-blue''), (''name'', Str ''Inbox'')]),
    (''Blank'', [(''type'', Str ''blank''), (''flag_editable'', Bool True),
       (''display'', Str ''invisible''), (''name'', Str ''Blank'')]),
    (''Drafts'', [(''type'', Str ''drafts''), (''flag_editable'', Bool True),
       (''display'', Str ''priority''), (''display_order'', Num 1),
       (''icon'', Str ''icon-compose''), (''label_color'', Str ''03-gray-dark''),
       (''name'', Str ''Drafts'')]),
    (''Outbox'', [(''type'', Str ''outbox''), (''display'', Str ''priority''),
       (''display_order'', Num 3), (''icon'', Str ''icon-outbox''),
       (''label_color'', Str ''06-blue''), (''name'', Str ''Outbox'')]),
    (''Sent'', [(''type'', Str ''sent''), (''display'', Str ''priority''),
       (''display_order'', Num 4), (''icon'', Str ''icon-sent''),
       (''label_color'', Str ''03-gray-dark''), (''name'', Str ''Sent'')]),
    (''Spam'', [(''type'', Str ''spam''), (''flag_hides'', Bool True),
       (''display'', Str ''priority''), (''display_order'', Num 5),
       (''icon'', Str ''icon-spam''), (''label_color'', Str ''10-orange''),
       (''name'', Str ''Spam'')]),
    (''MaybeSpam'', [(''display'', Str ''invisible''), (''icon'', Str ''icon-spam''),
       (''label_color'', Str ''10-orange''), (''name'', Str ''MaybeSpam'')]),
    (''Ham'', [(''type'', Str ''ham''), (''display'', Str ''invisible''),
       (''name'', Str ''Ham'')]),
    (''Trash'', [(''type'', Str ''trash''), (''flag_hides'', Bool True),
       (''display'', Str ''priority''), (''display_order'', Num 6),
       (''icon'', Str ''icon-trash''), (''label_color'', Str ''13-brown''),
       (''name'', Str ''Trash'')]),
    (''All Mail'', [(''type'', Str ''tag''), (''icon'', Str ''icon-logo''),
       (''label_color'', Str ''06-blue''), (''search_terms'', Str ''all:mail''),
       (''name'', Str ''All Mail''), (''display_order'', Num 1000)]),
    (''Photos'', [(''type'', Str ''tag''), (''icon'', Str ''icon-photos''),
       (''label_color'', Str ''08-green''), (''search_terms'', Str ''att:jpg''),
       (''name'', Str ''Photos''), (''template'', Str ''photos''),
       (''display_order'', Num 1001)]),
    (''Files'', [(''type'', Str ''tag''), (''icon'', Str ''icon-document''),
       (''label_color'', Str ''06-blue''), (''search_terms'', Str ''has:attachment''),
       (''name'', Str ''Files''), (''template'', Str ''files''),
       (''display_order'', Num 1002)]),
    (''Links'', [(''type'', Str ''tag''), (''icon'', Str ''icon-links''),
       (''label_color'', Str ''12-red''), (''search_terms'', Str ''http''),
       (''name'', Str ''Links''), (''display_order'', Num 1003)]),
    (''mp_rpl'', [(''type'', Str ''replied''), (''label'', Bool False),
       (''display'', Str ''invisible'')]),
    (''mp_fwd'', [(''type'', Str ''fwded''), (''label'', Bool False),
       (''display'', Str ''invisible'')]),
    (''mp_tag'', [(''type'', Str ''tagged''), (''label'', Bool False),
       (''display'', Str ''invisible'')]),
    (''mp_read'', [(''type'', Str ''read''), (''label'', Bool False),
       (''display'', Str ''invisible'')]),
    (''mp_ham'', [(''type'', Str ''ham''), (''label'', Bool False),
       (''display'', Str ''invisible'')])]"

text \<open>The dict the second loop passes to \<^verbatim>\<open>update\<close>, the same for every attribute tag.\<close>

definition attribute_attrs :: attrs where
  "attribute_attrs =
     [(''type'', Str ''attribute''), (''display'', Str ''invisible''), (''label'', Bool False)]"

text \<open>\<^verbatim>\<open>'mp_%s-%s' % (stype, status)\<close>\<close>

definition tagname :: "string \<Rightarrow> string \<Rightarrow> string" where
  "tagname stype status = ''mp_'' @ stype @ ''-'' @ status"

text \<open>
  The keys the second loop visits, each with its dict: the signature statuses first,
  then the encryption statuses.
\<close>

definition attribute_tags :: "env \<Rightarrow> (string \<times> attrs) list" where
  "attribute_tags e =
     concat (map (\<lambda>(stype, statuses). map (\<lambda>status. (tagname stype status, attribute_attrs)) statuses)
       [(''sig'', sig_STATUSES e), (''enc'', enc_STATUSES e)])"

subsection \<open>Small steps on the world\<close>

definition notify :: "string \<Rightarrow> world \<Rightarrow> world" where
  "notify m w = w\<lparr>events := events w @ [Notify m]\<rparr>"

definition warning :: "string \<Rightarrow> world \<Rightarrow> world" where
  "warning m w = w\<lparr>events := events w @ [Warning m]\<rparr>"

text \<open>\<^verbatim>\<open>session.config.save()\<close> writes the configuration out.\<close>

definition save :: "world \<Rightarrow> world" where
  "save w = w\<lparr>disk := cfg w, events := events w @ [Save]\<rparr>"

text \<open>\<^verbatim>\<open>session.config.load(session)\<close> replaces the configuration by the saved one.\<close>

definition load :: "world \<Rightarrow> world" where
  "load w = w\<lparr>cfg := disk w, events := events w @ [Load]\<rparr>"

definition on_cfg :: "(config \<Rightarrow> config) \<Rightarrow> world \<Rightarrow> world" where
  "on_cfg f w = w\<lparr>cfg := f (cfg w)\<rparr>"

subsection \<open>Standard tags (lines 163 to 183)\<close>

text \<open>
  The body both loops share, for the key \<open>t\<close> and the dict \<open>d\<close>; the state is the world
  and the list \<open>created\<close>. What \<^verbatim>\<open>run\<close> returns is dropped, and there is no
  \<^verbatim>\<open>try\<close> around either call.
\<close>

text \<open>
  \<^verbatim>\<open>not session.config.get_tag_id(t)\<close>: true when no id is returned and when the id
  returned is the empty string.
\<close>

definition no_tag_id :: "string option \<Rightarrow> bool" where
  "no_tag_id i = (case i of None \<Rightarrow> True | Some s \<Rightarrow> s = [])"

definition tag_step ::
  "tag_api \<Rightarrow> string \<times> attrs \<Rightarrow> world \<times> string list \<Rightarrow> (world \<times> string list) outcome" where
  "tag_step api td s =
     (case td of (t, d) \<Rightarrow> case s of (w, created) \<Rightarrow>
      (case (if no_tag_id (get_tag_id api (tags (cfg w)) t)
             then (case AddTag_run api (tags (cfg w)) t of
                     Inl e \<Rightarrow> Inl (e, w)
                   | Inr ts \<Rightarrow> Inr (on_cfg (tags_update (\<lambda>_. ts)) w, created @ [t]))
             else Inr (w, created)) of
         Inl x \<Rightarrow> Inl x
       | Inr (w1, created1) \<Rightarrow>
           (case get_tag_update api (tags (cfg w1)) t d of
              Inl e \<Rightarrow> Inl (e, w1)
            | Inr ts \<Rightarrow> Inr (on_cfg (tags_update (\<lambda>_. ts)) w1, created1))))"

fun tags_loop ::
  "tag_api \<Rightarrow> (string \<times> attrs) list \<Rightarrow> world \<times> string list \<Rightarrow> (world \<times> string list) outcome" where
  "tags_loop api [] s = Inr s"
| "tags_loop api (td # rest) s =
     (case tag_step api td s of Inl x \<Rightarrow> Inl x | Inr s' \<Rightarrow> tags_loop api rest s')"

text \<open>Every key the two loops visit, in order.\<close>

definition standard_tags :: "env \<Rightarrow> (string \<times> attrs) list" where
  "standard_tags e = TAGS @ attribute_tags e"

definition create_tags :: "env \<Rightarrow> world \<Rightarrow> world outcome" where
  "create_tags e w =
     (case tags_loop (tag_ops e) (standard_tags e) (w, []) of
        Inl x \<Rightarrow> Inl x
      | Inr (w1, created) \<Rightarrow>
          Inr (if ''New'' \<in> set created then notify ''Created default tags'' w1 else w1))"

subsection \<open>Plugins (lines 186 to 199)\<close>

fun append_missing :: "string list \<Rightarrow> string list \<Rightarrow> string list" where
  "append_missing [] ps = ps"
| "append_missing (plugin # rest) ps =
     append_missing rest (if plugin \<notin> set ps then ps @ [plugin] else ps)"

definition import_plugins :: "env \<Rightarrow> world \<Rightarrow> world" where
  "import_plugins e w =
     (let w1 = on_cfg (plugins_update (append_missing (PLUGINS e))) w;
          w2 = (if autotag_sb_importable e
                then (if ''autotag_sb'' \<notin> set (plugins (cfg w1))
                      then notify ''Enabling spambayes autotagger''
                             (on_cfg (plugins_update (\<lambda>ps. ps @ [''autotag_sb''])) w1)
                      else w1)
                else warning ''Please install spambayes for super awesome spam filtering'' w1)
      in load (save w2))"

subsection \<open>Importers and the autotag rule (lines 201 to 220)\<close>

text \<open>
  \<^verbatim>\<open>exclude_tags[0] = 'ham'\<close> on the rule just appended: the configuration's lists take
  an assignment at the index one past the end as an append.
\<close>

definition set_first :: "string \<Rightarrow> string list \<Rightarrow> string list" where
  "set_first v xs = (case xs of [] \<Rightarrow> [v] | _ # rest \<Rightarrow> v # rest)"

definition setup_importers :: "env \<Rightarrow> world \<Rightarrow> world" where
  "setup_importers e w =
     (let w1 = (if gravatar (cfg w) = []
                then notify ''Enabling gravatar image importer''
                       (on_cfg (gravatar_update (\<lambda>g. g @ [ [(''active'', Bool True)] ])) w)
                else w);
          gpg_home = expanduser e ''~/.gnupg'';
          w2 = (if path_exists e gpg_home \<and> gpg (cfg w1) = []
                then notify ''Importing contacts from GPG keyring''
                       (on_cfg (gpg_update (\<lambda>g. g @ [ [(''active'', Bool True),
                                                      (''gpg_home'', Str gpg_home)] ])) w1)
                else w1)
      in (if ''autotag_sb'' \<in> set (plugins (cfg w2)) \<and> length (autotag (cfg w2)) = 0
          then on_cfg (autotag_update (\<lambda>a. a @
                 [\<lparr>match_tag = ''spam'', unsure_tag = ''maybespam'', tagger = ''spambayes'',
                   trainer = ''spambayes'', exclude_tags = set_first ''ham'' []\<rparr>])) w2
          else w2))"

subsection \<open>Secret keys (lines 227 to 267)\<close>

definition revoked :: "string \<Rightarrow> key_details \<Rightarrow> bool" where
  "revoked tod details =
     (case revocation_date details of None \<Rightarrow> False | Some r \<Rightarrow> py_str_le r tod)"

text \<open>\<^verbatim>\<open>[x["email"] for x in session.config.profiles]\<close>\<close>

definition profile_emails :: "config \<Rightarrow> string list" where
  "profile_emails c = map profile_email (profiles c)"

definition uid_step :: "uid \<Rightarrow> world \<Rightarrow> world outcome" where
  "uid_step u w =
     (case uid_email u of
        None \<Rightarrow> Inr w
      | Some e \<Rightarrow>
          if e = [] then Inr w
          else if e \<in> set (profile_emails (cfg w)) then Inr w
          else (case uid_name u of
                  None \<Rightarrow> Inl (KeyError ''name'', w)
                | Some n \<Rightarrow>
                    Inr (on_cfg (profiles_update
                          (\<lambda>ps. ps @ [\<lparr>profile_email = e, profile_name = n\<rparr>])) w)))"

fun uids_loop :: "uid list \<Rightarrow> world \<Rightarrow> world outcome" where
  "uids_loop [] w = Inr w"
| "uids_loop (u # rest) w =
     (case uid_step u w of Inl x \<Rightarrow> Inl x | Inr w' \<Rightarrow> uids_loop rest w')"

text \<open>
  \<^verbatim>\<open>not prefs.gpg_recipient and details["capabilities"]["encrypt"]\<close>: the right operand is
  read only when the recipient is still empty.
\<close>

definition wants_recipient :: "key_details \<Rightarrow> world \<Rightarrow> exn + bool" where
  "wants_recipient details w =
     (if gpg_recipient (cfg w) = []
      then (case capabilities details of
              None \<Rightarrow> Inl (KeyError ''capabilities'')
            | Some caps \<Rightarrow>
                (case map_of caps ''encrypt'' of
                   None \<Rightarrow> Inl (KeyError ''encrypt'')
                 | Some b \<Rightarrow> Inr b))
      else Inr False)"

text \<open>
  Lines 254 to 259, for a key that was not skipped: \<open>b\<close> is the value of the condition
  above.
\<close>

definition adopt_key :: "string \<Rightarrow> bool \<Rightarrow> world \<Rightarrow> world" where
  "adopt_key key b w1 =
     (let w2 = (if b
                then notify (''Encrypting config to '' @ key)
                       (on_cfg (gpg_recipient_update (\<lambda>_. key)) w1)
                else w1)
      in (if crypto_policy (cfg w2) = ''none''
          then on_cfg (crypto_policy_update (\<lambda>_. ''openpgp-sign'')) w2
          else w2))"

definition key_step ::
  "string \<Rightarrow> string \<times> key_details \<Rightarrow> world \<times> string list \<Rightarrow> (world \<times> string list) outcome" where
  "key_step tod kd s =
     (case kd of (key, details) \<Rightarrow> case s of (w, accepted_keys) \<Rightarrow>
      if revoked tod details then Inr (w, accepted_keys)
      else
        (case uids details of
           None \<Rightarrow> Inl (KeyError ''uids'', w)
         | Some us \<Rightarrow>
             (case uids_loop us w of
                Inl x \<Rightarrow> Inl x
              | Inr w1 \<Rightarrow>
                  (case wants_recipient details w1 of
                     Inl e \<Rightarrow> Inl (e, w1)
                   | Inr b \<Rightarrow> Inr (adopt_key key b w1, accepted_keys @ [key])))))"

fun keys_loop ::
  "string \<Rightarrow> (string \<times> key_details) list \<Rightarrow> world \<times> string list \<Rightarrow> (world \<times> string list) outcome" where
  "keys_loop tod [] s = Inr s"
| "keys_loop tod (kd # rest) s =
     (case key_step tod kd s of Inl x \<Rightarrow> Inl x | Inr s' \<Rightarrow> keys_loop tod rest s')"

definition discover_keys :: "env \<Rightarrow> world \<Rightarrow> world outcome" where
  "discover_keys e w =
     (if gnupg_available e
      then (case keys_loop (today e) (secret_keys e) (w, []) of
              Inl x \<Rightarrow> Inl x
            | Inr (w1, accepted_keys) \<Rightarrow> Inr w1)
      else Inr (warning ''Oh no, PGP/GPG support is unavailable!'' w))"

subsection \<open>The search index (lines 269 to 278)\<close>

text \<open>
  Modelled from the spec: \<^verbatim>\<open>sha512b64\<close> of \<^verbatim>\<open>mailpile.util\<close>, which is not in this file. The
  spec has the salt made by "hashing a large block of cryptographically strong random
  bytes combined with the recipient key identifier and current timestamp", "combined via
  a one-way digest to produce an opaque salt"; the name gives the digest and its
  encoding. The arguments are hashed one after the other, the digest has 64 bytes, and
  what is returned is their base64 text with its padding.
\<close>

definition digest_bytes :: "(nat \<Rightarrow> nat) \<Rightarrow> nat list" where
  "digest_bytes h = map (\<lambda>i. h i mod 256) [0..<64]"

definition b64_char :: "nat \<Rightarrow> char" where
  "b64_char n =
     ''ABCDEFGHIJKLMNOPQRSTUVWXYZabcdefghijklmnopqrstuvwxyz0123456789+/'' ! (n mod 64)"

fun b64encode :: "nat list \<Rightarrow> string" where
  "b64encode (a # b # c # rest) =
     b64_char (a div 4) # b64_char ((a mod 4) * 16 + b div 16) #
     b64_char ((b mod 16) * 4 + c div 64) # b64_char (c mod 64) # b64encode rest"
| "b64encode [a, b] =
     [b64_char (a div 4), b64_char ((a mod 4) * 16 + b div 16), b64_char ((b mod 16) * 4),
      CHR ''='']"
| "b64encode [a] = [b64_char (a div 4), b64_char ((a mod 4) * 16), CHR ''='', CHR ''='']"
| "b64encode [] = []"

definition sha512b64 :: "(string \<Rightarrow> nat \<Rightarrow> nat) \<Rightarrow> string list \<Rightarrow> string" where
  "sha512b64 h data = b64encode (digest_bytes (h (concat data)))"

text \<open>Lines 272 to 274.\<close>

definition randcrap :: "env \<Rightarrow> world \<Rightarrow> string" where
  "randcrap e w = sha512b64 (sha512 e) [urandom e, gpg_recipient (cfg w), time_time e]"

definition obfuscate :: "env \<Rightarrow> world \<Rightarrow> world" where
  "obfuscate e w =
     (if gpg_recipient (cfg w) \<noteq> [] \<and> \<not> index_built e \<and> obfuscate_index (cfg w) = []
      then notify ''Obfuscating search index and enabling indexing of encrypted e-mail. ''
             (on_cfg (index_encrypted_update (\<lambda>_. True))
               (on_cfg (obfuscate_index_update (\<lambda>_. randcrap e w)) w))
      else w)"

subsection \<open>The command (lines 150 to 284)\<close>

definition command :: "env \<Rightarrow> world \<Rightarrow> (result \<times> world) outcome" where
  "command e w =
     (if lockdown (cfg w) then Inr (Error ''In lockdown, doing nothing.'', w)
      else
        (let w1 = on_cfg (migrate e True False) w;
             w2 = on_cfg (open_local_mailbox e) w1
         in case create_tags e w2 of
              Inl x \<Rightarrow> Inl x
            | Inr w3 \<Rightarrow>
                (let w4 = import_plugins e w3;
                     w5 = setup_importers e w4
                 in case discover_keys e w5 of
                      Inl x \<Rightarrow> Inl x
                    | Inr w6 \<Rightarrow>
                        (let w7 = obfuscate e w6;
                             w8 = on_cfg (migrate e False True) w7
                         in Inr (Success ''Performed initial Mailpile setup'', save w8)))))"

text \<open>
  The world a step leaves behind, whether it returned (\<open>f\<close> picks the world out of what
  it returned) or raised.
\<close>

definition final_world :: "('a \<Rightarrow> world) \<Rightarrow> 'a outcome \<Rightarrow> world" where
  "final_world f r = (case r of Inl (e, w) \<Rightarrow> w | Inr a \<Rightarrow> f a)"

text \<open>
  Several runs in a row, each in its own environment, every run starting in the world
  the one before left behind.
\<close>

fun setup_runs :: "env list \<Rightarrow> world \<Rightarrow> world" where
  "setup_runs [] w = w"
| "setup_runs (e # es) w = setup_runs es (final_world snd (command e w))"

subsection \<open>The tag store\<close>

text \<open>
  Modelled from the spec: the three capabilities of the tag store, whose code
  (\<^verbatim>\<open>config.get_tag_id\<close>, the \<^verbatim>\<open>AddTag\<close> command, \<^verbatim>\<open>config.get_tag\<close>) is not in this file.
  The spec gives them as \<^verbatim>\<open>tagExists(key)\<close>, \<^verbatim>\<open>createTag(key)\<close> and
  \<^verbatim>\<open>getTag(key).update(attrs)\<close>: a tag exists when the store holds one under the key,
  creating adds a tag under the key (with no attribute set yet), and updating applies
  the dict to the tag found under the key. A missing tag makes \<^verbatim>\<open>get_tag\<close> return
  nothing, so the \<^verbatim>\<open>update\<close> on it raises.
\<close>

definition store_get_tag_id :: "(string \<times> attrs) list \<Rightarrow> string \<Rightarrow> string option" where
  "store_get_tag_id ts t = (case map_of ts t of None \<Rightarrow> None | Some _ \<Rightarrow> Some t)"

definition store_AddTag_run :: "(string \<times> attrs) list \<Rightarrow> string \<Rightarrow> exn + (string \<times> attrs) list" where
  "store_AddTag_run ts t = Inr (ts @ [(t, [])])"

fun update_first :: "string \<Rightarrow> attrs \<Rightarrow> (string \<times> attrs) list \<Rightarrow> (string \<times> attrs) list option" where
  "update_first t d [] = None"
| "update_first t d (ka # rest) =
     (if fst ka = t then Some ((fst ka, dict_update (snd ka) d) # rest)
      else map_option (\<lambda>r. ka # r) (update_first t d rest))"

definition store_get_tag_update ::
  "(string \<times> attrs) list \<Rightarrow> string \<Rightarrow> attrs \<Rightarrow> exn + (string \<times> attrs) list" where
  "store_get_tag_update ts t d =
     (case update_first t d ts of
        None \<Rightarrow> Inl (AttributeError ''update'')
      | Some ts' \<Rightarrow> Inr ts')"

definition store_api :: tag_api where
  "store_api = \<lparr>get_tag_id = store_get_tag_id, AddTag_run = store_AddTag_run,
                get_tag_update = store_get_tag_update\<rparr>"

subsection \<open>Notions used in the statements\<close>

text \<open>
  The user identities of the keys that are not skipped, in the order the loops reach
  them (a key without the field has none).
\<close>

definition accepted_uids :: "string \<Rightarrow> (string \<times> key_details) list \<Rightarrow> uid list" where
  "accepted_uids tod keys =
     concat (map (\<lambda>(k, d). if revoked tod d then [] else (case uids d of None \<Rightarrow> [] | Some us \<Rightarrow> us)) keys)"

text \<open>The key's details say it can encrypt.\<close>

definition can_encrypt :: "key_details \<Rightarrow> bool" where
  "can_encrypt details =
     (case capabilities details of None \<Rightarrow> False | Some caps \<Rightarrow> map_of caps ''encrypt'' = Some True)"

text \<open>The details carry the fields the loop reads with \<^verbatim>\<open>[...]\<close>.\<close>

definition readable :: "key_details \<Rightarrow> bool" where
  "readable details \<longleftrightarrow>
     uids details \<noteq> None \<and>
     (case capabilities details of None \<Rightarrow> False | Some caps \<Rightarrow> map_of caps ''encrypt'' \<noteq> None)"

text \<open>
  What the key loop may do to a world: append profiles with new, distinct, non-empty
  addresses, each taken from one of the user identities \<open>U\<close>; set the recipient
  if it was empty; raise the policy from \<^verbatim>\<open>'none'\<close>; send messages. Nothing is saved.
\<close>

definition discovered :: "uid set \<Rightarrow> world \<Rightarrow> world \<Rightarrow> bool" where
  "discovered U w w' \<longleftrightarrow>
     disk w' = disk w \<and>
     cfg w' = (cfg w)\<lparr>profiles := profiles (cfg w'), gpg_recipient := gpg_recipient (cfg w'),
                      crypto_policy := crypto_policy (cfg w')\<rparr> \<and>
     (\<exists>new. profiles (cfg w') = profiles (cfg w) @ new \<and>
        distinct (map profile_email new) \<and>
        set (map profile_email new) \<inter> set (profile_emails (cfg w)) = {} \<and>
        (\<forall>p \<in> set new. profile_email p \<noteq> [] \<and>
           (\<exists>u \<in> U. uid_email u = Some (profile_email p) \<and> uid_name u = Some (profile_name p)))) \<and>
     (gpg_recipient (cfg w) \<noteq> [] \<longrightarrow> gpg_recipient (cfg w') = gpg_recipient (cfg w)) \<and>
     (crypto_policy (cfg w') = crypto_policy (cfg w) \<or> crypto_policy (cfg w') = ''openpgp-sign'') \<and>
     (crypto_policy (cfg w) \<noteq> ''none'' \<longrightarrow> crypto_policy (cfg w') = crypto_policy (cfg w)) \<and>
     (\<exists>evs. events w' = events w @ evs \<and> Save \<notin> set evs \<and> Load \<notin> set evs)"

text \<open>The non-empty addresses among user identities.\<close>

definition usable_emails :: "uid list \<Rightarrow> string set" where
  "usable_emails us = {em. em \<noteq> [] \<and> (\<exists>u \<in> set us. uid_email u = Some em)}"

text \<open>
  Every user identity of the list that has a non-empty address which is not registered
  yet has a name. Registered are the addresses \<open>R\<close> and those of the identities earlier
  in the list.
\<close>

definition names_present :: "string set \<Rightarrow> uid list \<Rightarrow> bool" where
  "names_present R us \<longleftrightarrow>
     (\<forall>pre u post em. us = pre @ u # post \<and> uid_email u = Some em \<and> em \<noteq> [] \<and> em \<notin> R \<and>
        Some em \<notin> uid_email ` set pre \<longrightarrow> uid_name u \<noteq> None)"

definition name_present :: "string set \<Rightarrow> uid \<Rightarrow> bool" where
  "name_present R u \<longleftrightarrow>
     (\<forall>em. uid_email u = Some em \<and> em \<noteq> [] \<and> em \<notin> R \<longrightarrow> uid_name u \<noteq> None)"

text \<open>The second world differs from the first in the tag store only.\<close>

definition only_tags :: "world \<Rightarrow> world \<Rightarrow> bool" where
  "only_tags w w' \<longleftrightarrow>
     cfg w' = (cfg w)\<lparr>tags := tags (cfg w')\<rparr> \<and> disk w' = disk w \<and> events w' = events w"

text \<open>The saves and reloads among events.\<close>

definition persist_events :: "event list \<Rightarrow> event list" where
  "persist_events evs = filter (\<lambda>x. x = Save \<or> x = Load) evs"

text \<open>
  Neither the migrations nor the mailbox initialiser of the environment change what \<open>f\<close>
  reads from a configuration.
\<close>

definition hooks_keep :: "(config \<Rightarrow> 'a) \<Rightarrow> env \<Rightarrow> bool" where
  "hooks_keep f e \<longleftrightarrow>
     (\<forall>before_setup after_setup c. f (migrate e before_setup after_setup c) = f c) \<and>
     (\<forall>c. f (open_local_mailbox e c) = f c)"

text \<open>
  What one pass of the loop body does to the tag store when the tag operations are the
  store's own: the first tag under the key is updated, after a tag was added if there
  was none.
\<close>

fun apply_first :: "string \<Rightarrow> attrs \<Rightarrow> (string \<times> attrs) list \<Rightarrow> (string \<times> attrs) list" where
  "apply_first t d [] = []"
| "apply_first t d (ka # rest) =
     (if fst ka = t then (fst ka, dict_update (snd ka) d) # rest else ka # apply_first t d rest)"

definition ensure_tag :: "string \<times> attrs \<Rightarrow> (string \<times> attrs) list \<Rightarrow> (string \<times> attrs) list" where
  "ensure_tag td ts =
     apply_first (fst td) (snd td) (if map_of ts (fst td) = None then ts @ [(fst td, [])] else ts)"

text \<open>
  The store has a tag under the key, and the tag found there has every attribute of the
  dict with the value the dict gives.
\<close>

definition tag_settled :: "(string \<times> attrs) list \<Rightarrow> string \<times> attrs \<Rightarrow> bool" where
  "tag_settled ts td \<longleftrightarrow>
     (\<exists>a. map_of ts (fst td) = Some a \<and> (\<forall>xv \<in> set (snd td). map_of a (fst xv) = Some (snd xv)))"

text \<open>No dict of the table names an attribute twice, and a key has one dict.\<close>

definition table_ok :: "(string \<times> attrs) list \<Rightarrow> bool" where
  "table_ok tds \<longleftrightarrow>
     (\<forall>td \<in> set tds. distinct (map fst (snd td))) \<and>
     (\<forall>td \<in> set tds. \<forall>td' \<in> set tds. fst td = fst td' \<longrightarrow> snd td = snd td')"

text \<open>The second world differs from the first in the events only, which have grown.\<close>

definition only_events :: "world \<Rightarrow> world \<Rightarrow> bool" where
  "only_events w w' \<longleftrightarrow> cfg w' = cfg w \<and> disk w' = disk w \<and> (\<exists>evs. events w' = events w @ evs)"

text \<open>
  The key loop has nothing left to do for a key in a configuration: the key is skipped,
  or the addresses of its user identities have profiles, the policy is not \<^verbatim>\<open>'none'\<close>,
  and the recipient is set or the key would not set one (it cannot encrypt, or its id
  is the empty string).
\<close>

definition quiet_key :: "string \<Rightarrow> config \<Rightarrow> string \<times> key_details \<Rightarrow> bool" where
  "quiet_key tod c kd \<longleftrightarrow>
     revoked tod (snd kd) \<or>
     (\<exists>us. uids (snd kd) = Some us \<and> usable_emails us \<subseteq> set (profile_emails c)) \<and>
     crypto_policy c \<noteq> ''none'' \<and>
     (gpg_recipient c \<noteq> [] \<or>
      (\<exists>caps b. capabilities (snd kd) = Some caps \<and> map_of caps ''encrypt'' = Some b \<and>
         (b \<longrightarrow> fst kd = [])))"

text \<open>A configuration in which no stage of the command has anything left to do.\<close>

definition settled_tags :: "env \<Rightarrow> config \<Rightarrow> bool" where
  "settled_tags e c \<longleftrightarrow> (\<forall>td \<in> set (standard_tags e). tag_settled (tags c) td)"

definition settled_plugins :: "env \<Rightarrow> config \<Rightarrow> bool" where
  "settled_plugins e c \<longleftrightarrow>
     set (PLUGINS e) \<subseteq> set (plugins c) \<and>
     (autotag_sb_importable e \<longrightarrow> ''autotag_sb'' \<in> set (plugins c))"

definition settled_importers :: "env \<Rightarrow> config \<Rightarrow> bool" where
  "settled_importers e c \<longleftrightarrow>
     gravatar c \<noteq> [] \<and>
     (path_exists e (expanduser e ''~/.gnupg'') \<longrightarrow> gpg c \<noteq> []) \<and>
     (''autotag_sb'' \<in> set (plugins c) \<longrightarrow> autotag c \<noteq> [])"

definition settled_keys :: "env \<Rightarrow> config \<Rightarrow> bool" where
  "settled_keys e c \<longleftrightarrow>
     (gnupg_available e \<longrightarrow> (\<forall>kd \<in> set (secret_keys e). quiet_key (today e) c kd))"

definition settled_index :: "env \<Rightarrow> config \<Rightarrow> bool" where
  "settled_index e c \<longleftrightarrow>
     \<not> (gpg_recipient c \<noteq> [] \<and> \<not> index_built e \<and> obfuscate_index c = [])"

definition settled :: "env \<Rightarrow> config \<Rightarrow> bool" where
  "settled e c \<longleftrightarrow>
     settled_tags e c \<and> settled_plugins e c \<and> settled_importers e c \<and> settled_keys e c \<and>
     settled_index e c"

text \<open>The message the obfuscation step sends (line 278).\<close>

definition obfuscating :: event where
  "obfuscating = Notify ''Obfuscating search index and enabling indexing of encrypted e-mail. ''"

text \<open>The second world has the events of the first and then events that all satisfy \<open>P\<close>.\<close>

definition says :: "(event \<Rightarrow> bool) \<Rightarrow> world \<Rightarrow> world \<Rightarrow> bool" where
  "says P w w' \<longleftrightarrow> (\<exists>evs. events w' = events w @ evs \<and> (\<forall>ev \<in> set evs. P ev))"

text \<open>
  The messages of the stages before line 198 (the tag loops and the registration of the
  plugins), and those of the stages after line 199: the importers, the key loop and the
  obfuscation step.
\<close>

definition early_message :: "event \<Rightarrow> bool" where
  "early_message ev \<longleftrightarrow>
     ev = Notify ''Created default tags'' \<or> ev = Notify ''Enabling spambayes autotagger'' \<or>
     ev = Warning ''Please install spambayes for super awesome spam filtering''"

definition importer_message :: "event \<Rightarrow> bool" where
  "importer_message ev \<longleftrightarrow>
     ev = Notify ''Enabling gravatar image importer'' \<or>
     ev = Notify ''Importing contacts from GPG keyring''"

definition discovery_message :: "event \<Rightarrow> bool" where
  "discovery_message ev \<longleftrightarrow>
     ev = Warning ''Oh no, PGP/GPG support is unavailable!'' \<or>
     (\<exists>key. ev = Notify (''Encrypting config to '' @ key))"

definition late_message :: "event \<Rightarrow> bool" where
  "late_message ev \<longleftrightarrow> importer_message ev \<or> discovery_message ev \<or> ev = obfuscating"

text \<open>
  Between the two worlds the salt and the encrypted flag were not written and the
  obfuscation message was not sent.
\<close>

definition no_decision :: "world \<Rightarrow> world \<Rightarrow> bool" where
  "no_decision w w' \<longleftrightarrow>
     obfuscate_index (cfg w') = obfuscate_index (cfg w) \<and>
     index_encrypted (cfg w') = index_encrypted (cfg w) \<and>
     says (\<lambda>ev. ev \<noteq> obfuscating) w w'"

text \<open>
  The dict the loops pass to \<^verbatim>\<open>update\<close> for a key: the one \<^verbatim>\<open>Setup.TAGS\<close> holds for it,
  and for a generated key, which starts with \<^verbatim>\<open>mp_sig-\<close> or \<^verbatim>\<open>mp_enc-\<close>, the dict of
  lines 175 to 179.
\<close>

definition canonical :: "string \<Rightarrow> attrs option" where
  "canonical K =
     (case map_of TAGS K of
        Some d \<Rightarrow> Some d
      | None \<Rightarrow>
          if take 7 K = ''mp_sig-'' \<or> take 7 K = ''mp_enc-''
          then Some [(''type'', Str ''attribute''), (''display'', Str ''invisible''),
                     (''label'', Bool False)]
          else None)"

subsection \<open>A first installation\<close>

text \<open>
  The configuration before the first run, and an environment with one plugin, one
  status of each kind, no spambayes, a keyring directory and two secret keys. Its random
  bytes are three characters and its digest is a stand-in that depends on the length of
  the data.
\<close>

definition fresh_config :: config where
  "fresh_config =
     \<lparr>lockdown = False, plugins = [], tags = [], gravatar = [], gpg = [], autotag = [],
      profiles = [], gpg_recipient = [], crypto_policy = ''none'', obfuscate_index = [],
      index_encrypted = False\<rparr>"

definition fresh_world :: world where
  "fresh_world = \<lparr>cfg = fresh_config, disk = fresh_config, events = []\<rparr>"

definition alice_key :: key_details where
  "alice_key =
     \<lparr>revocation_date = None,
      uids = Some [\<lparr>uid_email = Some ''alice@example.com'', uid_name = Some ''Alice''\<rparr>],
      capabilities = Some [(''encrypt'', True), (''sign'', True)]\<rparr>"

definition bob_key :: key_details where
  "bob_key =
     \<lparr>revocation_date = Some ''2999-12-31'',
      uids = Some [\<lparr>uid_email = Some ''bob@example.com'', uid_name = Some ''Bob''\<rparr>,
                   \<lparr>uid_email = Some ''alice@example.com'', uid_name = Some ''A.''\<rparr>],
      capabilities = Some [(''encrypt'', True)]\<rparr>"

definition home_env :: env where
  "home_env =
     \<lparr>PLUGINS = [''tags''], sig_STATUSES = [''none''], enc_STATUSES = [''none''],
      tag_ops = store_api,
      migrate = (\<lambda>before_setup after_setup c. c),
      open_local_mailbox = (\<lambda>c. c),
      autotag_sb_importable = False,
      expanduser = (\<lambda>p. ''/home/u'' @ drop 1 p),
      path_exists = (\<lambda>p. p = ''/home/u/.gnupg''),
      gnupg_available = True,
      secret_keys = [(''KEYA'', alice_key), (''KEYB'', bob_key)],
      today = ''2014-03-01'',
      index_built = False,
      urandom = ''abc'',
      time_time = ''1393632000.0'',
      sha512 = (\<lambda>data i. length data + i)\<rparr>"

text \<open>
  A key revoked long ago, a key whose only user identity has no name, and a world that
  has a profile for Alice already.
\<close>

definition carol_key :: key_details where
  "carol_key =
     \<lparr>revocation_date = Some ''2000-01-01'',
      uids = Some [\<lparr>uid_email = Some ''carol@example.com'', uid_name = Some ''Carol''\<rparr>],
      capabilities = Some [(''encrypt'', True)]\<rparr>"

definition dave_key :: key_details where
  "dave_key =
     \<lparr>revocation_date = None,
      uids = Some [\<lparr>uid_email = Some ''dave@example.com'', uid_name = None\<rparr>],
      capabilities = Some [(''encrypt'', False)]\<rparr>"

definition alice_world :: world where
  "alice_world = on_cfg (profiles_update (\<lambda>_.
      [\<lparr>profile_email = ''alice@example.com'', profile_name = ''Alice L.''\<rparr>])) fresh_world"

text \<open>The world after the first run in \<open>home_env\<close>.\<close>

definition settled_config :: config where
  "settled_config =
     \<lparr>lockdown = False, plugins = [''tags''],
      tags = TAGS @ [(''mp_sig-none'', attribute_attrs), (''mp_enc-none'', attribute_attrs)],
      gravatar = [ [(''active'', Bool True)] ],
      gpg = [ [(''active'', Bool True), (''gpg_home'', Str ''/home/u/.gnupg'')] ],
      autotag = [],
      profiles = [\<lparr>profile_email = ''alice@example.com'', profile_name = ''Alice''\<rparr>,
                  \<lparr>profile_email = ''bob@example.com'', profile_name = ''Bob''\<rparr>],
      gpg_recipient = ''KEYA'', crypto_policy = ''openpgp-sign'',
      obfuscate_index =
        ''ExQVFhcYGRobHB0eHyAhIiMkJSYnKCkqKywtLi8wMTIzNDU2Nzg5Ojs8PT4/QEFCQ0RFRkdISUpLTE1OT1BRUg=='',
      index_encrypted = True\<rparr>"

definition settled_world :: world where
  "settled_world =
     \<lparr>cfg = settled_config, disk = settled_config,
      events =
        [Notify ''Created default tags'',
         Warning ''Please install spambayes for super awesome spam filtering'',
         Save, Load,
         Notify ''Enabling gravatar image importer'',
         Notify ''Importing contacts from GPG keyring'',
         Notify ''Encrypting config to KEYA'',
         Notify ''Obfuscating search index and enabling indexing of encrypted e-mail. '',
         Save]\<rparr>"

text \<open>A fresh world with a recipient, and one that holds the first tag of the table only.\<close>

definition key_world :: world where
  "key_world = on_cfg (gpg_recipient_update (\<lambda>_. ''KEYA'')) fresh_world"

definition new_tag_world :: world where
  "new_tag_world = on_cfg (tags_update (\<lambda>_. take 1 TAGS)) fresh_world"

text \<open>A tag store in which creating the tag \<^verbatim>\<open>Inbox\<close> raises, and the environment with it.\<close>

definition inbox_fails :: tag_api where
  "inbox_fails =
     store_api\<lparr>AddTag_run :=
       (\<lambda>ts t. if t = ''Inbox'' then Inl (Failure ''Inbox'') else store_AddTag_run ts t)\<rparr>"

definition inbox_fails_env :: env where
  "inbox_fails_env = home_env\<lparr>tag_ops := inbox_fails\<rparr>"

text \<open>
  The same installation a minute later, with other random bytes, and the world a second
  run leaves there.
\<close>

definition later_env :: env where
  "later_env = home_env\<lparr>urandom := ''wxyz'', time_time := ''1393632060.5''\<rparr>"

definition settled_again :: world where
  "settled_again =
     settled_world\<lparr>events := events settled_world @
       [Warning ''Please install spambayes for super awesome spam filtering'', Save, Load, Save]\<rparr>"

text \<open>
  A fresh world whose store holds the tag \<^verbatim>\<open>Ham\<close> with an icon of the user's choice, and
  a fresh world in lockdown.
\<close>

definition ham_world :: world where
  "ham_world = on_cfg (tags_update (\<lambda>_. [(''Ham'', [(''icon'', Str ''icon-ham'')])])) fresh_world"

definition locked_world :: world where
  "locked_world = on_cfg (lockdown_update (\<lambda>_. True)) fresh_world"

section \<open>Properties\<close>

lemmas ex_defs = home_env_def fresh_world_def fresh_config_def alice_key_def bob_key_def
  carol_key_def dave_key_def alice_world_def store_api_def

subsection \<open>The digest\<close>

lemma b64encode_nonempty: "xs \<noteq> [] \<Longrightarrow> b64encode xs \<noteq> []"
  by (induction xs rule: b64encode.induct) auto

lemma sha512b64_nonempty: "sha512b64 h data \<noteq> []"
  by (simp add: sha512b64_def digest_bytes_def b64encode_nonempty)

lemma randcrap_nonempty: "randcrap e w \<noteq> []"
  by (simp add: randcrap_def sha512b64_nonempty)

subsection \<open>Lockdown\<close>

text \<open>
  C5. With \<^verbatim>\<open>sys.lockdown\<close> set, the command returns an error result and the world is
  the one it started from: the configuration in memory (tags, profiles, plugins,
  importers, encryption policy, obfuscation fields) and the saved configuration are
  unchanged, and no event (no save, no message) is recorded.
\<close>

theorem lockdown_does_nothing:
  "lockdown (cfg w) \<Longrightarrow> command e w = Inr (Error ''In lockdown, doing nothing.'', w)"
  by (simp add: command_def)

theorem lockdown_does_nothing_witness:
  "lockdown (cfg (on_cfg (lockdown_update (\<lambda>_. True)) fresh_world)) \<and>
   command home_env (on_cfg (lockdown_update (\<lambda>_. True)) fresh_world) =
     Inr (Error ''In lockdown, doing nothing.'', on_cfg (lockdown_update (\<lambda>_. True)) fresh_world)"
  using lockdown_does_nothing [of "on_cfg (lockdown_update (\<lambda>_. True)) fresh_world" home_env]
  by (simp add: on_cfg_def fresh_world_def fresh_config_def)

subsection \<open>The key loop\<close>

text \<open>The comparison is the lexicographic order on the character codes.\<close>

lemma py_str_le_lexord:
  "py_str_le xs ys \<longleftrightarrow>
     xs = ys \<or> (xs, ys) \<in> lexord {(a, b). (of_char a :: nat) < of_char b}"
proof (induction xs ys rule: py_str_le.induct)
  case (1 ys)
  then show ?case by (cases ys) auto
qed auto

lemma keys_loop_append:
  "keys_loop tod (xs @ ys) s =
     (case keys_loop tod xs s of Inl x \<Rightarrow> Inl x | Inr s' \<Rightarrow> keys_loop tod ys s')"
  by (induction xs arbitrary: s) (auto split: sum.splits)

lemma key_step_revoked:
  "revoked tod details \<Longrightarrow> key_step tod (key, details) s = Inr s"
  by (cases s) (simp add: key_step_def)

text \<open>
  C4. A key whose details carry a revocation date \<open>r\<close> with \<open>r <= today\<close> in Python's string
  order is skipped: the loop body returns at once with the world and the list of
  accepted keys as they were (no profile, no recipient, no policy change), and the
  whole loop ends as it does on the listing without that key.
\<close>

theorem revoked_key_is_skipped:
  "revocation_date details = Some r \<Longrightarrow> py_str_le r tod \<Longrightarrow>
     key_step tod (key, details) (w, accepted_keys) = Inr (w, accepted_keys) \<and>
     keys_loop tod (pre @ (key, details) # post) s = keys_loop tod (pre @ post) s"
  by (simp add: keys_loop_append key_step_revoked revoked_def split: sum.splits)

theorem revoked_key_is_skipped_witness:
  "revocation_date carol_key = Some ''2000-01-01'' \<and> py_str_le ''2000-01-01'' ''2014-03-01'' \<and>
   key_step ''2014-03-01'' (''KEYC'', carol_key) (fresh_world, []) = Inr (fresh_world, []) \<and>
   keys_loop ''2014-03-01'' ([(''KEYA'', alice_key)] @ (''KEYC'', carol_key) # [(''KEYB'', bob_key)])
       (fresh_world, []) =
     keys_loop ''2014-03-01'' ([(''KEYA'', alice_key)] @ [(''KEYB'', bob_key)]) (fresh_world, [])"
  using revoked_key_is_skipped [of carol_key "''2000-01-01''" "''2014-03-01''" "''KEYC''"
      fresh_world "[]" "[(''KEYA'', alice_key)]" "[(''KEYB'', bob_key)]" "(fresh_world, [])"]
  by (simp add: carol_key_def)

lemma discovered_refl: "discovered U w w"
  by (simp add: discovered_def)

lemma discovered_mono: "discovered U w w' \<Longrightarrow> U \<subseteq> V \<Longrightarrow> discovered V w w'"
  unfolding discovered_def by blast

lemma discovered_trans:
  assumes "discovered U w1 w2" and "discovered U w2 w3"
  shows "discovered U w1 w3"
proof -
  from assms(1) obtain n1 e1 where
    a: "disk w2 = disk w1"
       "cfg w2 = (cfg w1)\<lparr>profiles := profiles (cfg w2), gpg_recipient := gpg_recipient (cfg w2),
                      crypto_policy := crypto_policy (cfg w2)\<rparr>"
       "profiles (cfg w2) = profiles (cfg w1) @ n1" "distinct (map profile_email n1)"
       "set (map profile_email n1) \<inter> set (profile_emails (cfg w1)) = {}"
       "\<forall>p \<in> set n1. profile_email p \<noteq> [] \<and>
           (\<exists>u \<in> U. uid_email u = Some (profile_email p) \<and> uid_name u = Some (profile_name p))"
       "gpg_recipient (cfg w1) \<noteq> [] \<longrightarrow> gpg_recipient (cfg w2) = gpg_recipient (cfg w1)"
       "crypto_policy (cfg w2) = crypto_policy (cfg w1) \<or> crypto_policy (cfg w2) = ''openpgp-sign''"
       "crypto_policy (cfg w1) \<noteq> ''none'' \<longrightarrow> crypto_policy (cfg w2) = crypto_policy (cfg w1)"
       "events w2 = events w1 @ e1" "Save \<notin> set e1" "Load \<notin> set e1"
    unfolding discovered_def by blast
  from assms(2) obtain n2 e2 where
    b: "disk w3 = disk w2"
       "cfg w3 = (cfg w2)\<lparr>profiles := profiles (cfg w3), gpg_recipient := gpg_recipient (cfg w3),
                      crypto_policy := crypto_policy (cfg w3)\<rparr>"
       "profiles (cfg w3) = profiles (cfg w2) @ n2" "distinct (map profile_email n2)"
       "set (map profile_email n2) \<inter> set (profile_emails (cfg w2)) = {}"
       "\<forall>p \<in> set n2. profile_email p \<noteq> [] \<and>
           (\<exists>u \<in> U. uid_email u = Some (profile_email p) \<and> uid_name u = Some (profile_name p))"
       "gpg_recipient (cfg w2) \<noteq> [] \<longrightarrow> gpg_recipient (cfg w3) = gpg_recipient (cfg w2)"
       "crypto_policy (cfg w3) = crypto_policy (cfg w2) \<or> crypto_policy (cfg w3) = ''openpgp-sign''"
       "crypto_policy (cfg w2) \<noteq> ''none'' \<longrightarrow> crypto_policy (cfg w3) = crypto_policy (cfg w2)"
       "events w3 = events w2 @ e2" "Save \<notin> set e2" "Load \<notin> set e2"
    unfolding discovered_def by blast
  have c1: "disk w3 = disk w1" using a(1) b(1) by simp
  have c2: "cfg w3 = (cfg w1)\<lparr>profiles := profiles (cfg w3), gpg_recipient := gpg_recipient (cfg w3),
                      crypto_policy := crypto_policy (cfg w3)\<rparr>"
    by (subst b(2), subst a(2)) simp
  have c3: "profiles (cfg w3) = profiles (cfg w1) @ (n1 @ n2)" using a(3) b(3) by simp
  have c4: "distinct (map profile_email (n1 @ n2))"
    using a(3,4) b(4,5) by (auto simp: profile_emails_def)
  have c5: "set (map profile_email (n1 @ n2)) \<inter> set (profile_emails (cfg w1)) = {}"
    using a(3,5) b(5) by (auto simp: profile_emails_def)
  have c6: "\<forall>p \<in> set (n1 @ n2). profile_email p \<noteq> [] \<and>
           (\<exists>u \<in> U. uid_email u = Some (profile_email p) \<and> uid_name u = Some (profile_name p))"
    using a(6) b(6) by auto
  have c7: "gpg_recipient (cfg w1) \<noteq> [] \<longrightarrow> gpg_recipient (cfg w3) = gpg_recipient (cfg w1)"
    using a(7) b(7) by auto
  have c8: "crypto_policy (cfg w3) = crypto_policy (cfg w1) \<or> crypto_policy (cfg w3) = ''openpgp-sign''"
    using a(8) b(8) by auto
  have c9: "crypto_policy (cfg w1) \<noteq> ''none'' \<longrightarrow> crypto_policy (cfg w3) = crypto_policy (cfg w1)"
    using a(9) b(9) by auto
  have c10: "events w3 = events w1 @ (e1 @ e2) \<and> Save \<notin> set (e1 @ e2) \<and> Load \<notin> set (e1 @ e2)"
    using a(10,11,12) b(10,11,12) by simp
  show ?thesis
    unfolding discovered_def using c1 c2 c3 c4 c5 c6 c7 c8 c9 c10 by blast
qed

lemma discovered_uid_step:
  "u \<in> U \<Longrightarrow> discovered U w (final_world (\<lambda>w. w) (uid_step u w))"
  by (auto simp: discovered_def uid_step_def final_world_def on_cfg_def profile_emails_def
           split: option.splits)

lemma discovered_uids_loop:
  "set us \<subseteq> U \<Longrightarrow> discovered U w (final_world (\<lambda>w. w) (uids_loop us w))"
proof (induction us arbitrary: w)
  case Nil
  then show ?case by (simp add: final_world_def discovered_refl)
next
  case (Cons u us)
  show ?case
  proof (cases "uid_step u w")
    case (Inl x)
    then show ?thesis using discovered_uid_step [of u U w] Cons.prems
      by (simp add: final_world_def)
  next
    case (Inr w1)
    then have "discovered U w w1" using discovered_uid_step [of u U w] Cons.prems
      by (simp add: final_world_def)
    moreover have "discovered U w1 (final_world (\<lambda>w. w) (uids_loop us w1))"
      using Cons by simp
    ultimately have "discovered U w (final_world (\<lambda>w. w) (uids_loop us w1))"
      by (rule discovered_trans)
    then show ?thesis using Inr by simp
  qed
qed

lemma discovered_adopt_key:
  "b \<longrightarrow> gpg_recipient (cfg w1) = [] \<Longrightarrow> discovered U w1 (adopt_key key b w1)"
  by (auto simp: discovered_def adopt_key_def Let_def notify_def on_cfg_def profile_emails_def)

lemma wants_recipient_True:
  "wants_recipient d w = Inr True \<Longrightarrow> gpg_recipient (cfg w) = []"
  by (auto simp: wants_recipient_def split: if_splits option.splits)

lemma discovered_key_step:
  assumes "set (accepted_uids tod [kd]) \<subseteq> U"
  shows "discovered U w (final_world fst (key_step tod kd (w, acc)))"
proof (cases kd)
  case (Pair key d)
  show ?thesis
  proof (cases "revoked tod d")
    case True
    then show ?thesis using Pair by (simp add: key_step_def final_world_def discovered_refl)
  next
    case nr: False
    show ?thesis
    proof (cases "uids d")
      case None
      then show ?thesis using Pair nr by (simp add: key_step_def final_world_def discovered_refl)
    next
      case (Some us)
      then have sub: "set us \<subseteq> U" using assms Pair nr by (simp add: accepted_uids_def)
      have d1: "discovered U w (final_world (\<lambda>w. w) (uids_loop us w))"
        using sub by (rule discovered_uids_loop)
      show ?thesis
      proof (cases "uids_loop us w")
        case (Inl x)
        then show ?thesis using Pair nr Some d1
          by (simp add: key_step_def final_world_def split: prod.splits)
      next
        case (Inr w1)
        then have d2: "discovered U w w1" using d1 by (simp add: final_world_def)
        show ?thesis
        proof (cases "wants_recipient d w1")
          case (Inl e)
          then show ?thesis using Pair nr Some Inr d2
            by (simp add: key_step_def final_world_def)
        next
          case wr: (Inr b)
          have "b \<longrightarrow> gpg_recipient (cfg w1) = []"
            using wr wants_recipient_True [of d w1] by auto
          from discovered_adopt_key [OF this, of U key]
          have "discovered U w1 (final_world fst (key_step tod kd (w, acc)))"
            using Pair nr Some Inr wr by (simp add: key_step_def final_world_def)
          with d2 show ?thesis by (rule discovered_trans)
        qed
      qed
    qed
  qed
qed

lemma accepted_uids_Cons:
  "accepted_uids tod (kd # rest) = accepted_uids tod [kd] @ accepted_uids tod rest"
  by (simp add: accepted_uids_def)

lemma discovered_keys_loop:
  "set (accepted_uids tod keys) \<subseteq> U \<Longrightarrow>
     discovered U w (final_world fst (keys_loop tod keys (w, acc)))"
proof (induction keys arbitrary: w acc)
  case Nil
  then show ?case by (simp add: final_world_def discovered_refl)
next
  case (Cons kd rest)
  have s1: "set (accepted_uids tod [kd]) \<subseteq> U" and s2: "set (accepted_uids tod rest) \<subseteq> U"
    using Cons.prems accepted_uids_Cons [of tod kd rest] by auto
  have d1: "discovered U w (final_world fst (key_step tod kd (w, acc)))"
    using s1 by (rule discovered_key_step)
  show ?case
  proof (cases "key_step tod kd (w, acc)")
    case (Inl x)
    then show ?thesis using d1 by (simp add: final_world_def)
  next
    case (Inr s1)
    obtain w1 acc1 where s1: "s1 = (w1, acc1)" by (cases s1)
    have "discovered U w w1" using d1 Inr s1 by (simp add: final_world_def)
    moreover have "discovered U w1 (final_world fst (keys_loop tod rest (w1, acc1)))"
      using Cons.IH s2 by simp
    ultimately have "discovered U w (final_world fst (keys_loop tod rest (w1, acc1)))"
      by (rule discovered_trans)
    then show ?thesis using Inr s1 by simp
  qed
qed

lemma discovered_discover_keys:
  "gnupg_available e \<Longrightarrow>
     discovered (set (accepted_uids (today e) (secret_keys e))) w
       (final_world (\<lambda>w. w) (discover_keys e w))"
  using discovered_keys_loop [of "today e" "secret_keys e" _ w "[]", OF subset_refl]
  by (auto simp: discover_keys_def final_world_def split: sum.splits prod.splits)

lemma uid_step_frame:
  "cfg (final_world (\<lambda>w. w) (uid_step u w)) =
     (cfg w)\<lparr>profiles := profiles (cfg (final_world (\<lambda>w. w) (uid_step u w)))\<rparr> \<and>
   events (final_world (\<lambda>w. w) (uid_step u w)) = events w"
  by (auto simp: uid_step_def final_world_def on_cfg_def split: option.splits)

lemma uids_loop_frame:
  "cfg (final_world (\<lambda>w. w) (uids_loop us w)) =
     (cfg w)\<lparr>profiles := profiles (cfg (final_world (\<lambda>w. w) (uids_loop us w)))\<rparr> \<and>
   events (final_world (\<lambda>w. w) (uids_loop us w)) = events w"
proof (induction us arbitrary: w)
  case Nil
  then show ?case by (simp add: final_world_def)
next
  case (Cons u us)
  show ?case
  proof (cases "uid_step u w")
    case (Inl x)
    then show ?thesis using uid_step_frame [of u w] by simp
  next
    case (Inr w1)
    have a: "cfg w1 = (cfg w)\<lparr>profiles := profiles (cfg w1)\<rparr>" "events w1 = events w"
      using uid_step_frame [of u w] Inr by (simp_all add: final_world_def)
    have b: "cfg (final_world (\<lambda>w. w) (uids_loop us w1)) =
       (cfg w1)\<lparr>profiles := profiles (cfg (final_world (\<lambda>w. w) (uids_loop us w1)))\<rparr>"
      "events (final_world (\<lambda>w. w) (uids_loop us w1)) = events w1"
      using Cons.IH [of w1] by simp_all
    have "cfg (final_world (\<lambda>w. w) (uids_loop us w1)) =
       (cfg w)\<lparr>profiles := profiles (cfg (final_world (\<lambda>w. w) (uids_loop us w1)))\<rparr>"
      by (subst b(1), subst a(1)) simp
    then show ?thesis using Inr a b by simp
  qed
qed

lemma uids_loop_recipient:
  "uids_loop us w = Inr w1 \<Longrightarrow> gpg_recipient (cfg w1) = gpg_recipient (cfg w)"
proof -
  assume a: "uids_loop us w = Inr w1"
  have "cfg w1 = (cfg w)\<lparr>profiles := profiles (cfg w1)\<rparr>"
    using uids_loop_frame [of us w] a by (simp add: final_world_def)
  then have "gpg_recipient (cfg w1) = gpg_recipient ((cfg w)\<lparr>profiles := profiles (cfg w1)\<rparr>)"
    by simp
  then show ?thesis by simp
qed

lemma adopt_key_recipient:
  "gpg_recipient (cfg (adopt_key key b w)) = (if b then key else gpg_recipient (cfg w))"
  by (simp add: adopt_key_def Let_def on_cfg_def notify_def)

lemma key_step_no_recipient:
  assumes "key_step tod kd (w, acc) = Inr (w1, acc1)"
    and "gpg_recipient (cfg w) = []"
    and "revoked tod (snd kd) \<or> \<not> can_encrypt (snd kd)"
  shows "gpg_recipient (cfg w1) = []"
  using assms uids_loop_recipient
  by (cases kd)
     (auto simp: key_step_def wants_recipient_def can_encrypt_def adopt_key_recipient
           split: if_splits option.splits sum.splits)

lemma keys_loop_no_recipient:
  "keys_loop tod pre (w, acc) = Inr (w1, acc1) \<Longrightarrow> gpg_recipient (cfg w) = [] \<Longrightarrow>
     \<forall>kd \<in> set pre. revoked tod (snd kd) \<or> \<not> can_encrypt (snd kd) \<Longrightarrow>
     gpg_recipient (cfg w1) = []"
proof (induction pre arbitrary: w acc)
  case Nil
  then show ?case by simp
next
  case (Cons kd pre)
  from Cons.prems(1) obtain w2 acc2 where
    st: "key_step tod kd (w, acc) = Inr (w2, acc2)" and
    lp: "keys_loop tod pre (w2, acc2) = Inr (w1, acc1)"
    by (auto split: sum.splits)
  have "gpg_recipient (cfg w2) = []"
    using key_step_no_recipient [OF st Cons.prems(2)] Cons.prems(3) by simp
  then show ?case using Cons.IH [OF lp] Cons.prems(3) by simp
qed

lemma key_step_sets_recipient:
  assumes "key_step tod (keyA, dA) (w, acc) = Inr (w1, acc1)"
    and "gpg_recipient (cfg w) = []"
    and "\<not> revoked tod dA" and "can_encrypt dA"
  shows "gpg_recipient (cfg w1) = keyA"
  using assms uids_loop_recipient
  by (auto simp: key_step_def wants_recipient_def can_encrypt_def adopt_key_recipient
           split: if_splits option.splits sum.splits)

lemma discover_home:
  "discover_keys home_env fresh_world =
     Inr (fresh_world\<lparr>cfg := fresh_config\<lparr>profiles :=
            [\<lparr>profile_email = ''alice@example.com'', profile_name = ''Alice''\<rparr>,
             \<lparr>profile_email = ''bob@example.com'', profile_name = ''Bob''\<rparr>],
            gpg_recipient := ''KEYA'', crypto_policy := ''openpgp-sign''\<rparr>,
          events := [Notify ''Encrypting config to KEYA'']\<rparr>)"
  by (simp add: ex_defs discover_keys_def key_step_def uid_step_def revoked_def
        wants_recipient_def adopt_key_def on_cfg_def notify_def profile_emails_def Let_def)

text \<open>
  C3. Discovery never changes a recipient that is set when it starts, whether it returns
  or raises. And when the recipient is empty, the keyring is available and discovery
  returns, the recipient is the key id of the first listed key that is not revoked and
  can encrypt (every key listed before it being revoked or unable to encrypt), whatever
  keys follow; with two such keys A then B it is A. Key ids are non-empty strings.
\<close>

theorem first_capable_key_becomes_recipient:
  "(gpg_recipient (cfg w) \<noteq> [] \<longrightarrow>
      gpg_recipient (cfg (final_world (\<lambda>w. w) (discover_keys e w))) = gpg_recipient (cfg w)) \<and>
   (gpg_recipient (cfg w) = [] \<and> gnupg_available e \<and>
    secret_keys e = pre @ (keyA, dA) # post \<and>
    (\<forall>kd \<in> set pre. revoked (today e) (snd kd) \<or> \<not> can_encrypt (snd kd)) \<and>
    \<not> revoked (today e) dA \<and> can_encrypt dA \<and> keyA \<noteq> [] \<and>
    discover_keys e w = Inr w' \<longrightarrow>
      gpg_recipient (cfg w') = keyA)"
proof (intro conjI impI)
  assume ne: "gpg_recipient (cfg w) \<noteq> []"
  show "gpg_recipient (cfg (final_world (\<lambda>w. w) (discover_keys e w))) = gpg_recipient (cfg w)"
  proof (cases "gnupg_available e")
    case True
    from discovered_discover_keys [OF this, of w] ne show ?thesis
      by (simp add: discovered_def)
  next
    case False
    then show ?thesis
      by (simp add: discover_keys_def final_world_def warning_def)
  qed
next
  assume h: "gpg_recipient (cfg w) = [] \<and> gnupg_available e \<and>
    secret_keys e = pre @ (keyA, dA) # post \<and>
    (\<forall>kd \<in> set pre. revoked (today e) (snd kd) \<or> \<not> can_encrypt (snd kd)) \<and>
    \<not> revoked (today e) dA \<and> can_encrypt dA \<and> keyA \<noteq> [] \<and>
    discover_keys e w = Inr w'"
  then obtain acc' where
    lp: "keys_loop (today e) (pre @ (keyA, dA) # post) (w, []) = Inr (w', acc')"
    by (auto simp: discover_keys_def split: sum.splits)
  then obtain w1 acc1 where
    l1: "keys_loop (today e) pre (w, []) = Inr (w1, acc1)" and
    l2: "keys_loop (today e) ((keyA, dA) # post) (w1, acc1) = Inr (w', acc')"
    by (auto simp: keys_loop_append split: sum.splits)
  from l2 obtain w2 acc2 where
    st: "key_step (today e) (keyA, dA) (w1, acc1) = Inr (w2, acc2)" and
    l3: "keys_loop (today e) post (w2, acc2) = Inr (w', acc')"
    by (auto split: sum.splits)
  have "gpg_recipient (cfg w1) = []"
    using keys_loop_no_recipient [OF l1] h by simp
  then have r: "gpg_recipient (cfg w2) = keyA"
    using key_step_sets_recipient [OF st] h by simp
  have "discovered (set (accepted_uids (today e) post)) w2
          (final_world fst (keys_loop (today e) post (w2, acc2)))"
    by (rule discovered_keys_loop) simp
  then show "gpg_recipient (cfg w') = keyA"
    using l3 r h by (simp add: final_world_def discovered_def)
qed

theorem first_capable_key_becomes_recipient_witness:
  "gpg_recipient (cfg fresh_world) = [] \<and> gnupg_available home_env \<and>
   secret_keys home_env = [] @ (''KEYA'', alice_key) # [(''KEYB'', bob_key)] \<and>
   \<not> revoked (today home_env) alice_key \<and> can_encrypt alice_key \<and>
   \<not> revoked (today home_env) bob_key \<and> can_encrypt bob_key \<and>
   (\<exists>w'. discover_keys home_env fresh_world = Inr w' \<and> gpg_recipient (cfg w') = ''KEYA'' \<and>
      gpg_recipient (cfg (final_world (\<lambda>w. w) (discover_keys home_env w'))) = ''KEYA'')"
proof -
  let ?w' = "final_world (\<lambda>w. w) (discover_keys home_env fresh_world)"
  have r: "discover_keys home_env fresh_world = Inr ?w'"
    by (simp add: discover_home final_world_def)
  have h: "gpg_recipient (cfg fresh_world) = [] \<and> gnupg_available home_env \<and>
      secret_keys home_env = [] @ (''KEYA'', alice_key) # [(''KEYB'', bob_key)] \<and>
      \<not> revoked (today home_env) alice_key \<and> can_encrypt alice_key \<and>
      \<not> revoked (today home_env) bob_key \<and> can_encrypt bob_key"
    by (simp add: ex_defs revoked_def can_encrypt_def)
  have a: "gpg_recipient (cfg ?w') = ''KEYA''"
    using first_capable_key_becomes_recipient [of fresh_world home_env "[]" "''KEYA''" alice_key
        "[(''KEYB'', bob_key)]" ?w'] h r by simp
  have b: "gpg_recipient (cfg (final_world (\<lambda>w. w) (discover_keys home_env ?w'))) = ''KEYA''"
    using first_capable_key_becomes_recipient [of ?w' home_env] a by simp
  show ?thesis using h r a b by blast
qed

text \<open>
  C7. Whether discovery returns or raises, the profiles after it are the profiles before
  it, unchanged and in place, followed by new ones; the new ones have pairwise different,
  non-empty addresses, none of which had a profile before, and each is the address and
  name of a user identity of a key that was not skipped. So a profile list with at most
  one profile per address stays one.
\<close>

theorem discovery_keeps_profiles_unique:
  "\<exists>new. profiles (cfg (final_world (\<lambda>w. w) (discover_keys e w))) = profiles (cfg w) @ new \<and>
     distinct (map profile_email new) \<and>
     set (map profile_email new) \<inter> set (profile_emails (cfg w)) = {} \<and>
     (\<forall>p \<in> set new. profile_email p \<noteq> [] \<and>
        (\<exists>u \<in> set (accepted_uids (today e) (secret_keys e)).
           uid_email u = Some (profile_email p) \<and> uid_name u = Some (profile_name p))) \<and>
     (distinct (profile_emails (cfg w)) \<longrightarrow>
        distinct (profile_emails (cfg (final_world (\<lambda>w. w) (discover_keys e w)))))"
proof (cases "gnupg_available e")
  case True
  from discovered_discover_keys [OF this, of w] obtain new where
    n: "profiles (cfg (final_world (\<lambda>w. w) (discover_keys e w))) = profiles (cfg w) @ new"
       "distinct (map profile_email new)"
       "set (map profile_email new) \<inter> set (profile_emails (cfg w)) = {}"
       "\<forall>p \<in> set new. profile_email p \<noteq> [] \<and>
        (\<exists>u \<in> set (accepted_uids (today e) (secret_keys e)).
           uid_email u = Some (profile_email p) \<and> uid_name u = Some (profile_name p))"
    unfolding discovered_def by blast
  have "distinct (profile_emails (cfg w)) \<longrightarrow>
        distinct (profile_emails (cfg (final_world (\<lambda>w. w) (discover_keys e w))))"
    using n(1,2,3) by (auto simp: profile_emails_def)
  with n show ?thesis by blast
next
  case False
  then show ?thesis
    by (simp add: discover_keys_def final_world_def warning_def)
qed

theorem discovery_keeps_profiles_unique_witness:
  "distinct (profile_emails (cfg alice_world)) \<and>
   distinct (profile_emails (cfg (final_world (\<lambda>w. w) (discover_keys home_env alice_world)))) \<and>
   profiles (cfg (final_world (\<lambda>w. w) (discover_keys home_env alice_world))) =
     profiles (cfg alice_world) @ [\<lparr>profile_email = ''bob@example.com'', profile_name = ''Bob''\<rparr>]"
  using discovery_keeps_profiles_unique [of home_env alice_world]
  by (simp add: ex_defs discover_keys_def key_step_def uid_step_def revoked_def final_world_def
        wants_recipient_def adopt_key_def on_cfg_def notify_def profile_emails_def Let_def)

lemma usable_emails_simps:
  "usable_emails [] = {}"
  "usable_emails (u # us) = usable_emails [u] \<union> usable_emails us"
  "usable_emails (us @ vs) = usable_emails us \<union> usable_emails vs"
  by (auto simp: usable_emails_def)

lemma names_present_Nil: "names_present R []"
  by (simp add: names_present_def)

lemma names_present_Cons:
  "names_present R (u # us) \<longleftrightarrow> name_present R u \<and> names_present (R \<union> usable_emails [u]) us"
proof
  assume a: "names_present R (u # us)"
  have "name_present R u"
    unfolding name_present_def
  proof (intro allI impI)
    fix em assume "uid_email u = Some em \<and> em \<noteq> [] \<and> em \<notin> R"
    then have "u # us = [] @ u # us \<and> uid_email u = Some em \<and> em \<noteq> [] \<and> em \<notin> R \<and>
        Some em \<notin> uid_email ` set []" by simp
    with a show "uid_name u \<noteq> None" unfolding names_present_def by blast
  qed
  moreover have "names_present (R \<union> usable_emails [u]) us"
    unfolding names_present_def
  proof (intro allI impI)
    fix pre v post em
    assume h: "us = pre @ v # post \<and> uid_email v = Some em \<and> em \<noteq> [] \<and>
       em \<notin> R \<union> usable_emails [u] \<and> Some em \<notin> uid_email ` set pre"
    then have "uid_email u \<noteq> Some em" by (auto simp: usable_emails_def)
    with h have "u # us = (u # pre) @ v # post \<and> uid_email v = Some em \<and> em \<noteq> [] \<and> em \<notin> R \<and>
        Some em \<notin> uid_email ` set (u # pre)" by auto
    with a show "uid_name v \<noteq> None" unfolding names_present_def by blast
  qed
  ultimately show "name_present R u \<and> names_present (R \<union> usable_emails [u]) us" ..
next
  assume a: "name_present R u \<and> names_present (R \<union> usable_emails [u]) us"
  show "names_present R (u # us)"
    unfolding names_present_def
  proof (intro allI impI)
    fix pre v post em
    assume h: "u # us = pre @ v # post \<and> uid_email v = Some em \<and> em \<noteq> [] \<and> em \<notin> R \<and>
        Some em \<notin> uid_email ` set pre"
    show "uid_name v \<noteq> None"
    proof (cases pre)
      case Nil
      with h have "v = u" by simp
      with h a show ?thesis by (auto simp: name_present_def)
    next
      case (Cons x pre')
      with h have x: "x = u" and us: "us = pre' @ v # post" by simp_all
      from h Cons x have "uid_email u \<noteq> Some em" by auto
      then have "em \<notin> usable_emails [u]" by (simp add: usable_emails_def)
      with h Cons us have "us = pre' @ v # post \<and> uid_email v = Some em \<and> em \<noteq> [] \<and>
         em \<notin> R \<union> usable_emails [u] \<and> Some em \<notin> uid_email ` set pre'" by auto
      with a show ?thesis unfolding names_present_def by blast
    qed
  qed
qed

lemma names_present_append:
  "names_present R (us @ vs) \<longleftrightarrow> names_present R us \<and> names_present (R \<union> usable_emails us) vs"
proof (induction us arbitrary: R)
  case Nil
  then show ?case by (simp add: names_present_Nil usable_emails_simps)
next
  case (Cons u us)
  have "R \<union> usable_emails [u] \<union> usable_emails us = R \<union> usable_emails (u # us)"
    using usable_emails_simps(2) [of u us] by auto
  then show ?case
    using Cons.IH [of "R \<union> usable_emails [u]"] by (simp add: names_present_Cons)
qed

lemma uid_step_names:
  "if name_present (set (profile_emails (cfg w))) u
   then \<exists>w'. uid_step u w = Inr w' \<and>
          set (profile_emails (cfg w')) = set (profile_emails (cfg w)) \<union> usable_emails [u]
   else \<exists>w1. uid_step u w = Inl (KeyError ''name'', w1)"
  by (auto simp: uid_step_def name_present_def usable_emails_def on_cfg_def profile_emails_def
           split: option.splits)

lemma uids_loop_names:
  "if names_present (set (profile_emails (cfg w))) us
   then \<exists>w'. uids_loop us w = Inr w' \<and>
          set (profile_emails (cfg w')) = set (profile_emails (cfg w)) \<union> usable_emails us
   else \<exists>w1. uids_loop us w = Inl (KeyError ''name'', w1)"
proof (induction us arbitrary: w)
  case Nil
  then show ?case by (simp add: names_present_Nil usable_emails_simps)
next
  case (Cons u us)
  show ?case
  proof (cases "name_present (set (profile_emails (cfg w))) u")
    case False
    then show ?thesis using uid_step_names [of w u] by (auto simp: names_present_Cons)
  next
    case True
    then obtain w' where
      s: "uid_step u w = Inr w'"
         "set (profile_emails (cfg w')) = set (profile_emails (cfg w)) \<union> usable_emails [u]"
      using uid_step_names [of w u] by auto
    show ?thesis
      using Cons.IH [of w'] True s usable_emails_simps(2) [of u us]
      by (auto simp: names_present_Cons)
  qed
qed

lemma adopt_key_profiles: "profiles (cfg (adopt_key key b w)) = profiles (cfg w)"
  by (simp add: adopt_key_def Let_def on_cfg_def notify_def)

lemma wants_recipient_readable:
  "readable d \<Longrightarrow> \<exists>b. wants_recipient d w = Inr b"
  by (auto simp: readable_def wants_recipient_def split: option.splits)

lemma key_step_names:
  assumes "revoked tod (snd kd) \<or> readable (snd kd)"
  shows "if names_present (set (profile_emails (cfg w))) (accepted_uids tod [kd])
   then \<exists>w' acc'. key_step tod kd (w, acc) = Inr (w', acc') \<and>
          set (profile_emails (cfg w')) =
            set (profile_emails (cfg w)) \<union> usable_emails (accepted_uids tod [kd])
   else \<exists>w1. key_step tod kd (w, acc) = Inl (KeyError ''name'', w1)"
proof (cases kd)
  case (Pair key d)
  show ?thesis
  proof (cases "revoked tod d")
    case True
    then show ?thesis using Pair
      by (simp add: key_step_def accepted_uids_def names_present_Nil usable_emails_simps)
  next
    case False
    then have rd: "readable d" using assms Pair by simp
    then obtain us where us: "uids d = Some us" by (auto simp: readable_def)
    have au: "accepted_uids tod [kd] = us" using Pair False us by (simp add: accepted_uids_def)
    show ?thesis
    proof (cases "names_present (set (profile_emails (cfg w))) us")
      case np: False
      then obtain w1 where "uids_loop us w = Inl (KeyError ''name'', w1)"
        using uids_loop_names [of w us] by auto
      then show ?thesis using Pair False us au np by (simp add: key_step_def)
    next
      case np: True
      then obtain w1 where
        l: "uids_loop us w = Inr w1"
           "set (profile_emails (cfg w1)) = set (profile_emails (cfg w)) \<union> usable_emails us"
        using uids_loop_names [of w us] by auto
      obtain b where b: "wants_recipient d w1 = Inr b"
        using wants_recipient_readable [OF rd] by blast
      show ?thesis using Pair False us au np l b
        by (simp add: key_step_def profile_emails_def adopt_key_profiles)
    qed
  qed
qed

lemma keys_loop_names:
  assumes "\<forall>kd \<in> set keys. revoked tod (snd kd) \<or> readable (snd kd)"
  shows "if names_present (set (profile_emails (cfg w))) (accepted_uids tod keys)
   then \<exists>w' acc'. keys_loop tod keys (w, acc) = Inr (w', acc')
   else \<exists>w1. keys_loop tod keys (w, acc) = Inl (KeyError ''name'', w1)"
  using assms
proof (induction keys arbitrary: w acc)
  case Nil
  then show ?case by (simp add: accepted_uids_def names_present_Nil)
next
  case (Cons kd keys)
  have k: "revoked tod (snd kd) \<or> readable (snd kd)" using Cons.prems by simp
  have ks: "\<forall>kd \<in> set keys. revoked tod (snd kd) \<or> readable (snd kd)" using Cons.prems by simp
  have split: "names_present (set (profile_emails (cfg w))) (accepted_uids tod (kd # keys)) \<longleftrightarrow>
      names_present (set (profile_emails (cfg w))) (accepted_uids tod [kd]) \<and>
      names_present (set (profile_emails (cfg w)) \<union> usable_emails (accepted_uids tod [kd]))
        (accepted_uids tod keys)"
    using accepted_uids_Cons [of tod kd keys] by (simp add: names_present_append)
  show ?case
  proof (cases "names_present (set (profile_emails (cfg w))) (accepted_uids tod [kd])")
    case False
    then obtain w1 where "key_step tod kd (w, acc) = Inl (KeyError ''name'', w1)"
      using key_step_names [OF k, of w acc] by auto
    then show ?thesis using False split by simp
  next
    case True
    then obtain w' acc' where
      s: "key_step tod kd (w, acc) = Inr (w', acc')"
         "set (profile_emails (cfg w')) =
            set (profile_emails (cfg w)) \<union> usable_emails (accepted_uids tod [kd])"
      using key_step_names [OF k, of w acc] by auto
    show ?thesis using Cons.IH [OF ks, of w' acc'] True s split by simp
  qed
qed

text \<open>
  C10. The name of a user identity is read without a check. With the keyring available
  and the details of every key that is not skipped carrying the fields the loop reads,
  discovery returns exactly when every user identity of such a key that has a non-empty
  address not registered yet (no profile at the start, no earlier identity with that
  address) has a name; otherwise it raises the \<^verbatim>\<open>KeyError\<close> for \<^verbatim>\<open>'name'\<close>.
\<close>

theorem discovery_needs_names:
  assumes "gnupg_available e"
    and "\<forall>kd \<in> set (secret_keys e). revoked (today e) (snd kd) \<or> readable (snd kd)"
  shows "if names_present (set (profile_emails (cfg w))) (accepted_uids (today e) (secret_keys e))
         then \<exists>w'. discover_keys e w = Inr w'
         else \<exists>w1. discover_keys e w = Inl (KeyError ''name'', w1)"
  using keys_loop_names [OF assms(2), of w "[]"] assms(1)
  by (auto simp: discover_keys_def)

theorem discovery_needs_names_witness:
  "gnupg_available home_env \<and>
   secret_keys home_env = [(''KEYA'', alice_key), (''KEYB'', bob_key)] \<and>
   readable alice_key \<and> readable bob_key \<and> readable dave_key \<and>
   names_present (set (profile_emails (cfg fresh_world)))
     (accepted_uids (today home_env) (secret_keys home_env)) \<and>
   (\<exists>w'. discover_keys home_env fresh_world = Inr w') \<and>
   \<not> names_present (set (profile_emails (cfg fresh_world)))
     (accepted_uids (today home_env) [(''KEYD'', dave_key)]) \<and>
   (\<exists>w1. discover_keys (home_env\<lparr>secret_keys := [(''KEYD'', dave_key)]\<rparr>) fresh_world =
      Inl (KeyError ''name'', w1))"
proof -
  let ?e = "home_env\<lparr>secret_keys := [(''KEYD'', dave_key)]\<rparr>"
  have h1: "gnupg_available home_env \<and>
     (\<forall>kd \<in> set (secret_keys home_env). revoked (today home_env) (snd kd) \<or> readable (snd kd))"
    by (simp add: ex_defs readable_def)
  have h2: "gnupg_available ?e \<and>
     (\<forall>kd \<in> set (secret_keys ?e). revoked (today ?e) (snd kd) \<or> readable (snd kd))"
    by (simp add: ex_defs readable_def)
  have n1: "names_present (set (profile_emails (cfg fresh_world)))
     (accepted_uids (today home_env) (secret_keys home_env))"
    by (simp add: ex_defs accepted_uids_def revoked_def names_present_Cons names_present_Nil
          name_present_def)
  have n2: "\<not> names_present (set (profile_emails (cfg fresh_world)))
     (accepted_uids (today home_env) [(''KEYD'', dave_key)])"
    by (simp add: ex_defs accepted_uids_def revoked_def names_present_Cons names_present_Nil
          name_present_def profile_emails_def)
  have a: "\<exists>w'. discover_keys home_env fresh_world = Inr w'"
    using discovery_needs_names [of home_env fresh_world] h1 n1 by simp
  have "today ?e = today home_env" "secret_keys ?e = [(''KEYD'', dave_key)]" by simp_all
  then have b: "\<exists>w1. discover_keys ?e fresh_world = Inl (KeyError ''name'', w1)"
    using discovery_needs_names [of ?e fresh_world] h2 n2 by simp
  have h3: "secret_keys home_env = [(''KEYA'', alice_key), (''KEYB'', bob_key)] \<and>
     readable alice_key \<and> readable bob_key \<and> readable dave_key"
    by (simp add: ex_defs readable_def)
  show ?thesis using h1 h3 n1 a n2 b by blast
qed

subsection \<open>The stages of the command\<close>

lemma run_home:
  "command home_env fresh_world = Inr (Success ''Performed initial Mailpile setup'', settled_world)"
  by code_simp

lemma only_tags_refl: "only_tags w w"
  by (simp add: only_tags_def)

lemma only_tags_trans:
  assumes "only_tags w1 w2" and "only_tags w2 w3"
  shows "only_tags w1 w3"
proof -
  have a: "cfg w2 = (cfg w1)\<lparr>tags := tags (cfg w2)\<rparr>" and b: "cfg w3 = (cfg w2)\<lparr>tags := tags (cfg w3)\<rparr>"
    using assms by (simp_all add: only_tags_def)
  have "cfg w3 = (cfg w1)\<lparr>tags := tags (cfg w3)\<rparr>"
    by (subst b, subst a) simp
  then show ?thesis using assms by (simp add: only_tags_def)
qed

lemma only_tags_tag_step: "only_tags w (final_world fst (tag_step api td (w, created)))"
  by (cases td)
     (auto simp: only_tags_def tag_step_def final_world_def on_cfg_def split: sum.splits)

lemma only_tags_tags_loop: "only_tags w (final_world fst (tags_loop api tds (w, created)))"
proof (induction tds arbitrary: w created)
  case Nil
  then show ?case by (simp add: final_world_def only_tags_refl)
next
  case (Cons td tds)
  have d1: "only_tags w (final_world fst (tag_step api td (w, created)))"
    by (rule only_tags_tag_step)
  show ?case
  proof (cases "tag_step api td (w, created)")
    case (Inl x)
    then show ?thesis using d1 by (simp add: final_world_def)
  next
    case (Inr s1)
    obtain w1 c1 where s1: "s1 = (w1, c1)" by (cases s1)
    have "only_tags w w1" using d1 Inr s1 by (simp add: final_world_def)
    moreover have "only_tags w1 (final_world fst (tags_loop api tds (w1, c1)))"
      by (rule Cons.IH)
    ultimately have "only_tags w (final_world fst (tags_loop api tds (w1, c1)))"
      by (rule only_tags_trans)
    then show ?thesis using Inr s1 by simp
  qed
qed

lemma create_tags_Inl:
  "create_tags e w = Inl (ex, wx) \<Longrightarrow> only_tags w wx"
  using only_tags_tags_loop [of w "tag_ops e" "standard_tags e" "[]"]
  by (auto simp: create_tags_def final_world_def split: sum.splits)

lemma create_tags_Inr:
  "create_tags e w = Inr w' \<Longrightarrow>
     \<exists>w1. only_tags w w1 \<and> (w' = w1 \<or> w' = notify ''Created default tags'' w1)"
  using only_tags_tags_loop [of w "tag_ops e" "standard_tags e" "[]"]
  by (auto simp: create_tags_def final_world_def split: sum.splits if_splits)

lemma command_unfold:
  "\<not> lockdown (cfg w) \<Longrightarrow>
     command e w =
       (case create_tags e (on_cfg (open_local_mailbox e) (on_cfg (migrate e True False) w)) of
          Inl x \<Rightarrow> Inl x
        | Inr w3 \<Rightarrow>
            (case discover_keys e (setup_importers e (import_plugins e w3)) of
               Inl x \<Rightarrow> Inl x
             | Inr w6 \<Rightarrow>
                 Inr (Success ''Performed initial Mailpile setup'',
                      save (on_cfg (migrate e False True) (obfuscate e w6)))))"
  by (simp add: command_def Let_def split: sum.splits)

lemma create_tags_final:
  "\<exists>w1. only_tags w w1 \<and>
     (final_world (\<lambda>w. w) (create_tags e w) = w1 \<or>
      final_world (\<lambda>w. w) (create_tags e w) = notify ''Created default tags'' w1)"
proof (cases "create_tags e w")
  case (Inl x)
  obtain ex wx where x: "x = (ex, wx)" by (cases x)
  then have "only_tags w wx" using Inl create_tags_Inl by simp
  then show ?thesis using Inl x by (auto simp: final_world_def)
next
  case (Inr w')
  then show ?thesis using create_tags_Inr [of e w w'] by (auto simp: final_world_def)
qed

lemma import_plugins_cfg:
  "cfg (import_plugins e w) = (cfg w)\<lparr>plugins := plugins (cfg (import_plugins e w))\<rparr> \<and>
   disk (import_plugins e w) = cfg (import_plugins e w)"
  by (simp add: import_plugins_def Let_def save_def load_def on_cfg_def notify_def warning_def)

lemma setup_importers_cfg:
  "cfg (setup_importers e w) =
     (cfg w)\<lparr>gravatar := gravatar (cfg (setup_importers e w)),
              gpg := gpg (cfg (setup_importers e w)),
              autotag := autotag (cfg (setup_importers e w))\<rparr>"
  by (simp add: setup_importers_def Let_def on_cfg_def notify_def)

lemma obfuscate_cfg:
  "cfg (obfuscate e w) =
     (cfg w)\<lparr>obfuscate_index := obfuscate_index (cfg (obfuscate e w)),
              index_encrypted := index_encrypted (cfg (obfuscate e w))\<rparr>"
  by (simp add: obfuscate_def on_cfg_def notify_def)

lemma discover_keys_cfg:
  "cfg (final_world (\<lambda>w. w) (discover_keys e w)) =
     (cfg w)\<lparr>profiles := profiles (cfg (final_world (\<lambda>w. w) (discover_keys e w))),
              gpg_recipient := gpg_recipient (cfg (final_world (\<lambda>w. w) (discover_keys e w))),
              crypto_policy := crypto_policy (cfg (final_world (\<lambda>w. w) (discover_keys e w)))\<rparr>"
proof (cases "gnupg_available e")
  case True
  from discovered_discover_keys [OF this, of w] show ?thesis by (simp add: discovered_def)
next
  case False
  then show ?thesis by (simp add: discover_keys_def final_world_def warning_def)
qed

subsection \<open>The messages of the stages\<close>

lemma says_refl: "says P w w"
  by (simp add: says_def)

lemma says_trans: "says P w1 w2 \<Longrightarrow> says P w2 w3 \<Longrightarrow> says P w1 w3"
  by (auto simp: says_def)

lemma says_mono: "says P w w' \<Longrightarrow> (\<And>ev. P ev \<Longrightarrow> Q ev) \<Longrightarrow> says Q w w'"
  by (auto simp: says_def)

lemma says_count:
  "says (\<lambda>ev. ev \<noteq> x) w w' \<Longrightarrow> count_list (events w') x = count_list (events w) x"
  by (auto simp: says_def count_list_0_iff)

lemma message_kinds:
  "early_message ev \<Longrightarrow> ev \<noteq> obfuscating \<and> ev \<noteq> Save \<and> ev \<noteq> Load"
  "importer_message ev \<Longrightarrow> ev \<noteq> obfuscating \<and> ev \<noteq> Save \<and> ev \<noteq> Load"
  "discovery_message ev \<Longrightarrow> ev \<noteq> obfuscating \<and> ev \<noteq> Save \<and> ev \<noteq> Load"
  "late_message ev \<Longrightarrow> ev \<noteq> Save \<and> ev \<noteq> Load"
  by (auto simp: early_message_def importer_message_def discovery_message_def late_message_def
        obfuscating_def)

text \<open>The messages of each stage.\<close>

lemma create_tags_says:
  "says (\<lambda>ev. ev = Notify ''Created default tags'') w (final_world (\<lambda>w. w) (create_tags e w))"
proof -
  obtain w1 where a: "only_tags w w1" and
    b: "final_world (\<lambda>w. w) (create_tags e w) = w1 \<or>
        final_world (\<lambda>w. w) (create_tags e w) = notify ''Created default tags'' w1"
    using create_tags_final [of w e] by blast
  have "events w1 = events w" using a by (simp add: only_tags_def)
  then show ?thesis using b by (auto simp: says_def notify_def)
qed

lemma import_plugins_says:
  "\<exists>evs. events (import_plugins e w) = events w @ evs @ [Save, Load] \<and>
      (\<forall>ev \<in> set evs. ev = Notify ''Enabling spambayes autotagger'' \<or>
         ev = Warning ''Please install spambayes for super awesome spam filtering'') \<and>
      (\<not> autotag_sb_importable e \<longrightarrow>
         evs = [Warning ''Please install spambayes for super awesome spam filtering''])"
  by (simp add: import_plugins_def Let_def save_def load_def on_cfg_def notify_def warning_def)

lemma setup_importers_says: "says importer_message w (setup_importers e w)"
  by (simp add: says_def importer_message_def setup_importers_def Let_def on_cfg_def notify_def)

lemma adopt_key_says: "says discovery_message w (adopt_key key b w)"
  by (auto simp: says_def discovery_message_def adopt_key_def Let_def on_cfg_def notify_def)

lemma key_step_says:
  "says discovery_message w (final_world fst (key_step tod kd (w, acc)))"
proof (cases kd)
  case (Pair key d)
  show ?thesis
  proof (cases "revoked tod d")
    case True
    then show ?thesis using Pair by (simp add: key_step_def final_world_def says_refl)
  next
    case nr: False
    show ?thesis
    proof (cases "uids d")
      case None
      then show ?thesis using Pair nr by (simp add: key_step_def final_world_def says_refl)
    next
      case (Some us)
      have e1: "events (final_world (\<lambda>w. w) (uids_loop us w)) = events w"
        using uids_loop_frame [of us w] by simp
      show ?thesis
      proof (cases "uids_loop us w")
        case (Inl x)
        then have "events (final_world fst (key_step tod kd (w, acc))) = events w"
          using Pair nr Some e1 by (simp add: key_step_def final_world_def split: prod.splits)
        then show ?thesis by (simp add: says_def)
      next
        case (Inr w1)
        then have e2: "events w1 = events w" using e1 by (simp add: final_world_def)
        show ?thesis
        proof (cases "wants_recipient d w1")
          case (Inl ex)
          then show ?thesis using Pair nr Some Inr e2
            by (simp add: key_step_def final_world_def says_def)
        next
          case wr: (Inr b)
          have "says discovery_message w1 (adopt_key key b w1)" by (rule adopt_key_says)
          then have "says discovery_message w (adopt_key key b w1)" using e2 by (simp add: says_def)
          then show ?thesis using Pair nr Some Inr wr by (simp add: key_step_def final_world_def)
        qed
      qed
    qed
  qed
qed

lemma keys_loop_says:
  "says discovery_message w (final_world fst (keys_loop tod keys (w, acc)))"
proof (induction keys arbitrary: w acc)
  case Nil
  then show ?case by (simp add: final_world_def says_refl)
next
  case (Cons kd keys)
  have d1: "says discovery_message w (final_world fst (key_step tod kd (w, acc)))"
    by (rule key_step_says)
  show ?case
  proof (cases "key_step tod kd (w, acc)")
    case (Inl x)
    then show ?thesis using d1 by (simp add: final_world_def)
  next
    case (Inr s1)
    obtain w1 acc1 where s1: "s1 = (w1, acc1)" by (cases s1)
    have "says discovery_message w w1" using d1 Inr s1 by (simp add: final_world_def)
    moreover have "says discovery_message w1 (final_world fst (keys_loop tod keys (w1, acc1)))"
      by (rule Cons.IH)
    ultimately have "says discovery_message w (final_world fst (keys_loop tod keys (w1, acc1)))"
      by (rule says_trans)
    then show ?thesis using Inr s1 by simp
  qed
qed

lemma discover_keys_says:
  "says discovery_message w (final_world (\<lambda>w. w) (discover_keys e w)) \<and>
   (\<not> gnupg_available e \<longrightarrow>
      events (final_world (\<lambda>w. w) (discover_keys e w)) =
        events w @ [Warning ''Oh no, PGP/GPG support is unavailable!''])"
proof (cases "gnupg_available e")
  case True
  have "says discovery_message w (final_world fst (keys_loop (today e) (secret_keys e) (w, [])))"
    by (rule keys_loop_says)
  then show ?thesis using True
    by (auto simp: discover_keys_def final_world_def split: sum.splits prod.splits)
next
  case False
  then show ?thesis
    by (simp add: discover_keys_def final_world_def warning_def says_def discovery_message_def)
qed

lemma obfuscate_says:
  "events (obfuscate e w) =
     events w @ (if gpg_recipient (cfg w) \<noteq> [] \<and> \<not> index_built e \<and> obfuscate_index (cfg w) = []
                 then [obfuscating] else [])"
  by (simp add: obfuscate_def obfuscating_def on_cfg_def notify_def)

subsection \<open>Saving\<close>

lemma append_missing_set: "set (append_missing xs ps) = set xs \<union> set ps"
  by (induction xs arbitrary: ps) auto

lemma import_plugins_saves:
  "disk (import_plugins e w) = cfg (import_plugins e w) \<and>
   cfg (import_plugins e w) = (cfg w)\<lparr>plugins := plugins (cfg (import_plugins e w))\<rparr> \<and>
   set (PLUGINS e) \<subseteq> set (plugins (cfg (import_plugins e w)))"
  by (auto simp: import_plugins_def Let_def save_def load_def on_cfg_def notify_def warning_def
        append_missing_set)

lemma only_tags_cfg: "only_tags w w' \<Longrightarrow> cfg w' = (cfg w)\<lparr>tags := tags (cfg w')\<rparr>"
  by (simp add: only_tags_def)

lemma create_tags_cfg:
  assumes "create_tags e w = Inr w'"
  shows "cfg w' = (cfg w)\<lparr>tags := tags (cfg w')\<rparr>"
proof -
  obtain w1 where a: "only_tags w w1" and b: "w' = w1 \<or> w' = notify ''Created default tags'' w1"
    using create_tags_Inr [OF assms] by blast
  have "cfg w' = cfg w1" using b by (auto simp: notify_def)
  then show ?thesis using only_tags_cfg [OF a] by simp
qed

text \<open>
  C9, as the code has it. A run that returns in lockdown leaves the world as it was. Any
  other run that returns has saved the configuration twice. The first save is the one of
  lines 198 and 199, right after the plugins are registered and at once followed by a
  reload: the run passes through a world \<open>w4\<close> whose events are those of the start, the
  messages \<open>a\<close> of the tag loops and of the plugin registration, and the save and the
  reload; in \<open>w4\<close> the saved configuration is the one in memory, it holds every plugin of
  \<^verbatim>\<open>PLUGINS\<close>, and it differs from the configuration the opening migration and the
  mailbox initialiser left in tags and plugins only, so importers, profiles, recipient,
  policy, salt and encrypted flag are untouched at that point. The importers and the key
  loop then run on \<open>w4\<close> without saving (the saved configuration of \<open>w6\<close> is that of
  \<open>w4\<close>), the obfuscation step and the closing migration follow, and the second save is
  the last event, with no reload after it. The messages \<open>b\<close> between the reload and the
  last save are those of the importers, the key loop and the obfuscation step; neither
  \<open>a\<close> nor \<open>b\<close> holds a save or a reload. Without spambayes the warning about it is the
  last event before the first save, and without GnuPG the warning about it comes after
  the reload.
\<close>

theorem config_is_saved_twice:
  assumes "command e w = Inr (r, w')"
  shows "if lockdown (cfg w) then w' = w
         else disk w' = cfg w' \<and>
           (\<exists>a b w4 w6.
              events w' = events w @ a @ [Save, Load] @ b @ [Save] \<and>
              (\<forall>ev \<in> set a. early_message ev) \<and> (\<forall>ev \<in> set b. late_message ev) \<and>
              persist_events a = [] \<and> persist_events b = [] \<and>
              (\<not> autotag_sb_importable e \<longrightarrow>
                 a \<noteq> [] \<and>
                 last a = Warning ''Please install spambayes for super awesome spam filtering'') \<and>
              (\<not> gnupg_available e \<longrightarrow>
                 Warning ''Oh no, PGP/GPG support is unavailable!'' \<in> set b) \<and>
              events w4 = events w @ a @ [Save, Load] \<and> disk w4 = cfg w4 \<and>
              cfg w4 = (open_local_mailbox e (migrate e True False (cfg w)))
                         \<lparr>tags := tags (cfg w4), plugins := plugins (cfg w4)\<rparr> \<and>
              set (PLUGINS e) \<subseteq> set (plugins (cfg w4)) \<and>
              discover_keys e (setup_importers e w4) = Inr w6 \<and>
              disk w6 = disk w4 \<and>
              w' = save (on_cfg (migrate e False True) (obfuscate e w6)))"
proof (cases "lockdown (cfg w)")
  case True
  then show ?thesis using assms by (simp add: command_def)
next
  case False
  let ?w2 = "on_cfg (open_local_mailbox e) (on_cfg (migrate e True False) w)"
  from assms False obtain w3 w6 where
    t: "create_tags e ?w2 = Inr w3" and
    d: "discover_keys e (setup_importers e (import_plugins e w3)) = Inr w6" and
    w': "w' = save (on_cfg (migrate e False True) (obfuscate e w6))"
    by (auto simp: command_unfold split: sum.splits)
  let ?w4 = "import_plugins e w3"
  let ?w5 = "setup_importers e ?w4"
  obtain a1 where a1: "events w3 = events w @ a1" "\<forall>ev \<in> set a1. ev = Notify ''Created default tags''"
    using create_tags_says [of ?w2 e] t by (auto simp: says_def final_world_def on_cfg_def)
  obtain a2 where a2: "events ?w4 = events w3 @ a2 @ [Save, Load]"
      "\<forall>ev \<in> set a2. ev = Notify ''Enabling spambayes autotagger'' \<or>
         ev = Warning ''Please install spambayes for super awesome spam filtering''"
      "\<not> autotag_sb_importable e \<longrightarrow>
         a2 = [Warning ''Please install spambayes for super awesome spam filtering'']"
    using import_plugins_says [of e w3] by blast
  obtain b1 where b1: "events ?w5 = events ?w4 @ b1" "\<forall>ev \<in> set b1. importer_message ev"
    using setup_importers_says [of ?w4 e] by (auto simp: says_def)
  obtain b2 where b2: "events w6 = events ?w5 @ b2" "\<forall>ev \<in> set b2. discovery_message ev"
    using discover_keys_says [of ?w5 e] d by (auto simp: says_def final_world_def)
  have b2': "\<not> gnupg_available e \<longrightarrow> b2 = [Warning ''Oh no, PGP/GPG support is unavailable!'']"
    using discover_keys_says [of ?w5 e] d b2(1) by (simp add: final_world_def)
  obtain b3 where b3: "events (obfuscate e w6) = events w6 @ b3" "\<forall>ev \<in> set b3. ev = obfuscating"
    using obfuscate_says [of e w6] by simp
  let ?a = "a1 @ a2"
  let ?b = "b1 @ b2 @ b3"
  have ev: "events w' = events w @ ?a @ [Save, Load] @ ?b @ [Save]"
    using w' a1(1) a2(1) b1(1) b2(1) b3(1) by (simp add: save_def on_cfg_def)
  have ea: "\<forall>ev \<in> set ?a. early_message ev"
    using a1(2) a2(2) by (auto simp: early_message_def)
  have lb: "\<forall>ev \<in> set ?b. late_message ev"
    using b1(2) b2(2) b3(2) by (auto simp: late_message_def)
  have pa: "persist_events ?a = []"
    using ea message_kinds(1) by (auto simp: persist_events_def filter_empty_conv)
  have pb: "persist_events ?b = []"
    using lb message_kinds(4) by (auto simp: persist_events_def filter_empty_conv)
  have la: "\<not> autotag_sb_importable e \<longrightarrow>
      ?a \<noteq> [] \<and> last ?a = Warning ''Please install spambayes for super awesome spam filtering''"
    using a2(3) by simp
  have ob: "\<not> gnupg_available e \<longrightarrow> Warning ''Oh no, PGP/GPG support is unavailable!'' \<in> set ?b"
    using b2' by simp
  have dk: "disk w' = cfg w'" using w' by (simp add: save_def)
  have e4: "events ?w4 = events w @ ?a @ [Save, Load]" using a1(1) a2(1) by simp
  have d4: "disk ?w4 = cfg ?w4" and p4: "set (PLUGINS e) \<subseteq> set (plugins (cfg ?w4))"
    and c4: "cfg ?w4 = (cfg w3)\<lparr>plugins := plugins (cfg ?w4)\<rparr>"
    using import_plugins_saves [of e w3] by blast+
  have c3: "cfg w3 = (cfg ?w2)\<lparr>tags := tags (cfg w3)\<rparr>" using t by (rule create_tags_cfg)
  have t4: "tags (cfg ?w4) = tags (cfg w3)" by (subst c4) simp
  have "cfg ?w4 = (cfg ?w2)\<lparr>tags := tags (cfg w3), plugins := plugins (cfg ?w4)\<rparr>"
    by (subst c4, subst c3) simp
  then have f4: "cfg ?w4 = (open_local_mailbox e (migrate e True False (cfg w)))
                         \<lparr>tags := tags (cfg ?w4), plugins := plugins (cfg ?w4)\<rparr>"
    unfolding t4 by (simp add: on_cfg_def)
  have d5: "disk ?w5 = disk ?w4" by (simp add: setup_importers_def Let_def on_cfg_def notify_def)
  have d6: "disk w6 = disk ?w4"
  proof (cases "gnupg_available e")
    case True
    from discovered_discover_keys [OF this, of ?w5] d d5 show ?thesis
      by (simp add: final_world_def discovered_def)
  next
    case False
    with d d5 show ?thesis by (auto simp: discover_keys_def warning_def)
  qed
  have "\<exists>a b w4 w6.
              events w' = events w @ a @ [Save, Load] @ b @ [Save] \<and>
              (\<forall>ev \<in> set a. early_message ev) \<and> (\<forall>ev \<in> set b. late_message ev) \<and>
              persist_events a = [] \<and> persist_events b = [] \<and>
              (\<not> autotag_sb_importable e \<longrightarrow>
                 a \<noteq> [] \<and>
                 last a = Warning ''Please install spambayes for super awesome spam filtering'') \<and>
              (\<not> gnupg_available e \<longrightarrow>
                 Warning ''Oh no, PGP/GPG support is unavailable!'' \<in> set b) \<and>
              events w4 = events w @ a @ [Save, Load] \<and> disk w4 = cfg w4 \<and>
              cfg w4 = (open_local_mailbox e (migrate e True False (cfg w)))
                         \<lparr>tags := tags (cfg w4), plugins := plugins (cfg w4)\<rparr> \<and>
              set (PLUGINS e) \<subseteq> set (plugins (cfg w4)) \<and>
              discover_keys e (setup_importers e w4) = Inr w6 \<and>
              disk w6 = disk w4 \<and>
              w' = save (on_cfg (migrate e False True) (obfuscate e w6))"
    apply (rule exI [of _ ?a], rule exI [of _ ?b], rule exI [of _ ?w4], rule exI [of _ w6])
    using ev ea lb pa pb la ob e4 d4 f4 p4 d d6 w' by blast
  then show ?thesis using False dk by simp
qed

theorem config_is_saved_twice_witness:
  "command home_env fresh_world = Inr (Success ''Performed initial Mailpile setup'', settled_world) \<and>
   \<not> lockdown (cfg fresh_world) \<and> disk settled_world = cfg settled_world \<and>
   events settled_world =
     events fresh_world @
     [Notify ''Created default tags'',
      Warning ''Please install spambayes for super awesome spam filtering''] @
     [Save, Load] @
     [Notify ''Enabling gravatar image importer'', Notify ''Importing contacts from GPG keyring'',
      Notify ''Encrypting config to KEYA'', obfuscating] @
     [Save] \<and>
   early_message (Warning ''Please install spambayes for super awesome spam filtering'') \<and>
   late_message (Notify ''Enabling gravatar image importer'') \<and>
   late_message (Notify ''Encrypting config to KEYA'') \<and>
   persist_events (events settled_world) = [Save, Load, Save] \<and>
   events (import_plugins home_env (final_world (\<lambda>w. w) (create_tags home_env fresh_world))) =
     [Notify ''Created default tags'',
      Warning ''Please install spambayes for super awesome spam filtering'', Save, Load] \<and>
   plugins (cfg (import_plugins home_env (final_world (\<lambda>w. w) (create_tags home_env fresh_world)))) =
     [''tags''] \<and>
   plugins (disk (import_plugins home_env (final_world (\<lambda>w. w) (create_tags home_env fresh_world)))) =
     [''tags''] \<and>
   gravatar (cfg (import_plugins home_env (final_world (\<lambda>w. w) (create_tags home_env fresh_world)))) =
     [] \<and>
   gpg_recipient (cfg (import_plugins home_env (final_world (\<lambda>w. w) (create_tags home_env fresh_world)))) =
     [] \<and>
   obfuscate_index (cfg (import_plugins home_env (final_world (\<lambda>w. w) (create_tags home_env fresh_world)))) =
     []"
proof -
  have h: "\<not> lockdown (cfg fresh_world)" by (simp add: ex_defs)
  have d: "disk settled_world = cfg settled_world"
    using config_is_saved_twice [OF run_home] h by simp
  have e: "events settled_world =
     events fresh_world @
     [Notify ''Created default tags'',
      Warning ''Please install spambayes for super awesome spam filtering''] @
     [Save, Load] @
     [Notify ''Enabling gravatar image importer'', Notify ''Importing contacts from GPG keyring'',
      Notify ''Encrypting config to KEYA'', obfuscating] @
     [Save]"
    by (simp add: settled_world_def fresh_world_def obfuscating_def)
  have m: "early_message (Warning ''Please install spambayes for super awesome spam filtering'')"
      "late_message (Notify ''Enabling gravatar image importer'')"
      "late_message (Notify ''Encrypting config to KEYA'')"
    by (simp_all add: early_message_def late_message_def importer_message_def discovery_message_def)
  have p: "persist_events (events settled_world) = [Save, Load, Save]"
    by (simp add: settled_world_def persist_events_def)
  have w4: "events (import_plugins home_env (final_world (\<lambda>w. w) (create_tags home_env fresh_world))) =
     [Notify ''Created default tags'',
      Warning ''Please install spambayes for super awesome spam filtering'', Save, Load] \<and>
   plugins (cfg (import_plugins home_env (final_world (\<lambda>w. w) (create_tags home_env fresh_world)))) =
     [''tags''] \<and>
   plugins (disk (import_plugins home_env (final_world (\<lambda>w. w) (create_tags home_env fresh_world)))) =
     [''tags''] \<and>
   gravatar (cfg (import_plugins home_env (final_world (\<lambda>w. w) (create_tags home_env fresh_world)))) =
     [] \<and>
   gpg_recipient (cfg (import_plugins home_env (final_world (\<lambda>w. w) (create_tags home_env fresh_world)))) =
     [] \<and>
   obfuscate_index (cfg (import_plugins home_env (final_world (\<lambda>w. w) (create_tags home_env fresh_world)))) =
     []"
    by code_simp
  show ?thesis using run_home h d e m p w4 by blast
qed

text \<open>
  C9 as stated asks for exactly one save, at the end and followed by a reload. The first
  run of the fresh installation saves twice, and its saves and reloads are: save,
  reload, save.
\<close>

theorem earlier_save_counterexample:
  "count_list (events (final_world snd (command home_env fresh_world))) Save \<noteq> 1 \<and>
   persist_events (events (final_world snd (command home_env fresh_world))) = [Save, Load, Save]"
  by code_simp

subsection \<open>A failing tag operation\<close>

text \<open>
  C8, as the code has it. Nothing catches a failure in the tag loops: when the creation
  or the update of one tag raises, after the tags \<open>pre\<close> before it went through, the
  command ends at once with that exception and the world reached so far. The tags
  \<open>post\<close> after it and the later stages are not processed, no message is sent and
  nothing is saved.
\<close>

theorem tag_failure_aborts_the_command:
  assumes "\<not> lockdown (cfg w)"
    and "standard_tags e = pre @ td # post"
    and "tags_loop (tag_ops e) pre
           (on_cfg (open_local_mailbox e) (on_cfg (migrate e True False) w), []) = Inr s"
    and "tag_step (tag_ops e) td s = Inl (ex, wx)"
  shows "command e w = Inl (ex, wx) \<and> disk wx = disk w \<and> events wx = events w"
proof -
  let ?w2 = "on_cfg (open_local_mailbox e) (on_cfg (migrate e True False) w)"
  have app: "\<And>xs ys s0. tags_loop (tag_ops e) (xs @ ys) s0 =
     (case tags_loop (tag_ops e) xs s0 of Inl x \<Rightarrow> Inl x | Inr s' \<Rightarrow> tags_loop (tag_ops e) ys s')"
  proof -
    fix xs ys s0
    show "tags_loop (tag_ops e) (xs @ ys) s0 =
     (case tags_loop (tag_ops e) xs s0 of Inl x \<Rightarrow> Inl x | Inr s' \<Rightarrow> tags_loop (tag_ops e) ys s')"
      by (induction xs arbitrary: s0) (auto split: sum.splits)
  qed
  have l: "tags_loop (tag_ops e) (standard_tags e) (?w2, []) = Inl (ex, wx)"
    using assms(2,3,4) by (simp add: app)
  then have c: "create_tags e ?w2 = Inl (ex, wx)" by (simp add: create_tags_def)
  then have "only_tags ?w2 wx" by (rule create_tags_Inl)
  then have "disk wx = disk w \<and> events wx = events w" by (simp add: only_tags_def on_cfg_def)
  then show ?thesis using c assms(1) by (simp add: command_unfold)
qed

theorem tag_failure_aborts_the_command_witness:
  "\<not> lockdown (cfg fresh_world) \<and>
   standard_tags inbox_fails_env = take 1 TAGS @ (TAGS ! 1) # drop 2 (standard_tags inbox_fails_env) \<and>
   tags_loop (tag_ops inbox_fails_env) (take 1 TAGS)
     (on_cfg (open_local_mailbox inbox_fails_env)
        (on_cfg (migrate inbox_fails_env True False) fresh_world), []) =
     Inr (new_tag_world, [''New'']) \<and>
   tag_step (tag_ops inbox_fails_env) (TAGS ! 1) (new_tag_world, [''New'']) =
     Inl (Failure ''Inbox'', new_tag_world) \<and>
   command inbox_fails_env fresh_world = Inl (Failure ''Inbox'', new_tag_world)"
proof -
  have h1: "\<not> lockdown (cfg fresh_world)" by (simp add: ex_defs)
  have h2: "standard_tags inbox_fails_env =
      take 1 TAGS @ (TAGS ! 1) # drop 2 (standard_tags inbox_fails_env)"
    by code_simp
  have h3: "tags_loop (tag_ops inbox_fails_env) (take 1 TAGS)
     (on_cfg (open_local_mailbox inbox_fails_env)
        (on_cfg (migrate inbox_fails_env True False) fresh_world), []) =
     Inr (new_tag_world, [''New''])"
    by code_simp
  have h4: "tag_step (tag_ops inbox_fails_env) (TAGS ! 1) (new_tag_world, [''New'']) =
     Inl (Failure ''Inbox'', new_tag_world)"
    by code_simp
  have "command inbox_fails_env fresh_world = Inl (Failure ''Inbox'', new_tag_world)"
    using tag_failure_aborts_the_command [OF h1 h2 h3 h4] by simp
  then show ?thesis using h1 h2 h3 h4 by blast
qed

text \<open>
  C8 as stated asks for the remaining tags to be processed and the failure to be
  reported. With a tag store in which creating \<^verbatim>\<open>Inbox\<close> raises, the command raises, the
  attribute tag \<^verbatim>\<open>mp_sig-none\<close> of the second loop is never created, and no event is
  recorded.
\<close>

theorem tag_failure_counterexample:
  "isl (command inbox_fails_env fresh_world) \<and>
   map_of (tags (cfg (final_world snd (command inbox_fails_env fresh_world)))) ''mp_sig-none'' = None \<and>
   events (final_world snd (command inbox_fails_env fresh_world)) = []"
  by code_simp

subsection \<open>The obfuscation of the index\<close>

lemma no_decision_refl: "no_decision w w"
  by (simp add: no_decision_def says_refl)

lemma no_decision_trans: "no_decision w1 w2 \<Longrightarrow> no_decision w2 w3 \<Longrightarrow> no_decision w1 w3"
  using says_trans by (auto simp: no_decision_def)

lemma hooks_no_decision:
  "hooks_keep obfuscate_index e \<Longrightarrow> hooks_keep index_encrypted e \<Longrightarrow>
     no_decision w (on_cfg (migrate e before_setup after_setup) w) \<and>
     no_decision w (on_cfg (open_local_mailbox e) w)"
  by (simp add: no_decision_def hooks_keep_def on_cfg_def says_def)

lemma only_tags_no_decision: "only_tags w w' \<Longrightarrow> no_decision w w'"
proof -
  assume a: "only_tags w w'"
  then have c: "cfg w' = (cfg w)\<lparr>tags := tags (cfg w')\<rparr>" by (simp add: only_tags_def)
  have "obfuscate_index (cfg w') = obfuscate_index (cfg w)"
      "index_encrypted (cfg w') = index_encrypted (cfg w)"
    by (subst c, simp)+
  then show ?thesis using a by (simp add: no_decision_def only_tags_def says_def)
qed

lemma create_tags_no_decision: "no_decision w (final_world (\<lambda>w. w) (create_tags e w))"
proof -
  obtain w1 where a: "only_tags w w1" and
    b: "final_world (\<lambda>w. w) (create_tags e w) = w1 \<or>
        final_world (\<lambda>w. w) (create_tags e w) = notify ''Created default tags'' w1"
    using create_tags_final [of w e] by blast
  have "no_decision w1 (notify ''Created default tags'' w1)"
    by (simp add: no_decision_def notify_def says_def obfuscating_def)
  then have "no_decision w1 (final_world (\<lambda>w. w) (create_tags e w))"
    using b no_decision_refl [of w1] by auto
  with only_tags_no_decision [OF a] show ?thesis by (rule no_decision_trans)
qed

lemma import_plugins_no_decision: "no_decision w (import_plugins e w)"
  by (simp add: no_decision_def says_def obfuscating_def import_plugins_def Let_def save_def
        load_def on_cfg_def notify_def warning_def)

lemma setup_importers_no_decision: "no_decision w (setup_importers e w)"
  by (simp add: no_decision_def says_def obfuscating_def setup_importers_def Let_def on_cfg_def
        notify_def)

lemma discover_keys_no_decision: "no_decision w (final_world (\<lambda>w. w) (discover_keys e w))"
proof -
  let ?w' = "final_world (\<lambda>w. w) (discover_keys e w)"
  have c: "cfg ?w' = (cfg w)\<lparr>profiles := profiles (cfg ?w'), gpg_recipient := gpg_recipient (cfg ?w'),
              crypto_policy := crypto_policy (cfg ?w')\<rparr>"
    by (rule discover_keys_cfg)
  have f: "obfuscate_index (cfg ?w') = obfuscate_index (cfg w)"
      "index_encrypted (cfg ?w') = index_encrypted (cfg w)"
    by (subst c, simp)+
  have "says discovery_message w ?w'" using discover_keys_says [of w e] by simp
  then have "says (\<lambda>ev. ev \<noteq> obfuscating) w ?w'"
    by (rule says_mono) (simp add: message_kinds)
  then show ?thesis using f by (simp add: no_decision_def)
qed

lemma save_no_decision: "no_decision w (save w)"
  by (simp add: no_decision_def says_def save_def obfuscating_def)

text \<open>From the start of a run to the decision.\<close>

lemma before_the_decision:
  assumes hk: "hooks_keep obfuscate_index e" "hooks_keep index_encrypted e"
    and t: "create_tags e (on_cfg (open_local_mailbox e) (on_cfg (migrate e True False) w)) = Inr w3"
  shows "no_decision w (final_world (\<lambda>w. w) (discover_keys e (setup_importers e (import_plugins e w3))))"
proof -
  let ?w1 = "on_cfg (migrate e True False) w"
  let ?w2 = "on_cfg (open_local_mailbox e) ?w1"
  have "no_decision w ?w1" using hooks_no_decision [OF hk] by simp
  moreover have "no_decision ?w1 ?w2" using hooks_no_decision [OF hk] by simp
  ultimately have n2: "no_decision w ?w2" by (rule no_decision_trans)
  have "no_decision ?w2 w3" using create_tags_no_decision [of ?w2 e] t by (simp add: final_world_def)
  with n2 have n3: "no_decision w w3" by (rule no_decision_trans)
  have "no_decision w3 (import_plugins e w3)" by (rule import_plugins_no_decision)
  with n3 have n4: "no_decision w (import_plugins e w3)" by (rule no_decision_trans)
  have "no_decision (import_plugins e w3) (setup_importers e (import_plugins e w3))"
    by (rule setup_importers_no_decision)
  with n4 have n5: "no_decision w (setup_importers e (import_plugins e w3))"
    by (rule no_decision_trans)
  show ?thesis using n5 discover_keys_no_decision by (rule no_decision_trans)
qed

lemma command_no_decision:
  assumes hk: "hooks_keep obfuscate_index e" "hooks_keep index_encrypted e"
    and ne: "obfuscate_index (cfg w) \<noteq> []"
  shows "no_decision w (final_world snd (command e w))"
proof (cases "lockdown (cfg w)")
  case True
  then show ?thesis by (simp add: command_def final_world_def no_decision_refl)
next
  case False
  let ?w2 = "on_cfg (open_local_mailbox e) (on_cfg (migrate e True False) w)"
  show ?thesis
  proof (cases "create_tags e ?w2")
    case (Inl x)
    have "no_decision w (on_cfg (migrate e True False) w)" using hooks_no_decision [OF hk] by simp
    moreover have "no_decision (on_cfg (migrate e True False) w) ?w2"
      using hooks_no_decision [OF hk] by simp
    ultimately have "no_decision w ?w2" by (rule no_decision_trans)
    then have "no_decision w (final_world (\<lambda>w. w) (create_tags e ?w2))"
      using create_tags_no_decision by (rule no_decision_trans)
    then show ?thesis using False Inl by (simp add: command_unfold final_world_def)
  next
    case (Inr w3)
    let ?d = "discover_keys e (setup_importers e (import_plugins e w3))"
    have n6: "no_decision w (final_world (\<lambda>w. w) ?d)" using hk Inr by (rule before_the_decision)
    show ?thesis
    proof (cases ?d)
      case (Inl x)
      then show ?thesis using False Inr n6 by (simp add: command_unfold final_world_def)
    next
      case r6: (Inr w6)
      then have n: "no_decision w w6" using n6 by (simp add: final_world_def)
      then have "obfuscate_index (cfg w6) \<noteq> []" using ne by (simp add: no_decision_def)
      then have o: "obfuscate e w6 = w6" by (simp add: obfuscate_def)
      have "no_decision w6 (on_cfg (migrate e False True) w6)" using hooks_no_decision [OF hk] by simp
      with n have "no_decision w (on_cfg (migrate e False True) w6)" by (rule no_decision_trans)
      then have "no_decision w (save (on_cfg (migrate e False True) w6))"
        using save_no_decision by (rule no_decision_trans)
      then show ?thesis using False Inr r6 o by (simp add: command_unfold final_world_def)
    qed
  qed
qed

lemma setup_runs_no_decision:
  "\<forall>e \<in> set es. hooks_keep obfuscate_index e \<and> hooks_keep index_encrypted e \<Longrightarrow>
     obfuscate_index (cfg w) \<noteq> [] \<Longrightarrow> no_decision w (setup_runs es w)"
proof (induction es arbitrary: w)
  case Nil
  then show ?case by (simp add: no_decision_refl)
next
  case (Cons e es)
  let ?w1 = "final_world snd (command e w)"
  have n1: "no_decision w ?w1" using command_no_decision [of e w] Cons.prems by simp
  then have "obfuscate_index (cfg ?w1) \<noteq> []" using Cons.prems(2) by (simp add: no_decision_def)
  then have "no_decision ?w1 (setup_runs es ?w1)" using Cons.IH [of ?w1] Cons.prems(1) by simp
  with n1 have "no_decision w (setup_runs es ?w1)" by (rule no_decision_trans)
  then show ?case by simp
qed

lemma decision_of_a_run:
  assumes hk: "hooks_keep obfuscate_index e" "hooks_keep index_encrypted e"
    and hr: "hooks_keep gpg_recipient e"
    and nl: "\<not> lockdown (cfg w)"
    and run: "command e w = Inr (r, w')"
  shows "if gpg_recipient (cfg w') \<noteq> [] \<and> \<not> index_built e \<and> obfuscate_index (cfg w) = []
       then obfuscate_index (cfg w') =
              sha512b64 (sha512 e) [urandom e, gpg_recipient (cfg w'), time_time e] \<and>
            obfuscate_index (cfg w') \<noteq> [] \<and> index_encrypted (cfg w') \<and>
            count_list (events w') obfuscating = count_list (events w) obfuscating + 1
       else obfuscate_index (cfg w') = obfuscate_index (cfg w) \<and>
            index_encrypted (cfg w') = index_encrypted (cfg w) \<and>
            count_list (events w') obfuscating = count_list (events w) obfuscating"
proof -
  let ?w2 = "on_cfg (open_local_mailbox e) (on_cfg (migrate e True False) w)"
  from run nl obtain w3 w6 where
    t: "create_tags e ?w2 = Inr w3" and
    d: "discover_keys e (setup_importers e (import_plugins e w3)) = Inr w6" and
    w': "w' = save (on_cfg (migrate e False True) (obfuscate e w6))"
    by (auto simp: command_unfold split: sum.splits)
  have n: "no_decision w w6" using before_the_decision [OF hk t] d by (simp add: final_world_def)
  then have s6: "obfuscate_index (cfg w6) = obfuscate_index (cfg w)"
    and i6: "index_encrypted (cfg w6) = index_encrypted (cfg w)"
    and c6: "count_list (events w6) obfuscating = count_list (events w) obfuscating"
    by (simp_all add: no_decision_def says_count)
  have r': "gpg_recipient (cfg w') = gpg_recipient (cfg w6)"
    using w' hr by (simp add: save_def on_cfg_def hooks_keep_def obfuscate_def notify_def)
  have s': "obfuscate_index (cfg w') = obfuscate_index (cfg (obfuscate e w6))"
    and i': "index_encrypted (cfg w') = index_encrypted (cfg (obfuscate e w6))"
    using w' hk by (simp_all add: save_def on_cfg_def hooks_keep_def)
  have e': "events w' = events (obfuscate e w6) @ [Save]"
    using w' by (simp add: save_def on_cfg_def)
  show ?thesis
  proof (cases "gpg_recipient (cfg w6) \<noteq> [] \<and> \<not> index_built e \<and> obfuscate_index (cfg w6) = []")
    case True
    have "obfuscate_index (cfg (obfuscate e w6)) = randcrap e w6"
        "index_encrypted (cfg (obfuscate e w6))"
      using True by (simp_all add: obfuscate_def on_cfg_def notify_def)
    moreover have "events (obfuscate e w6) = events w6 @ [obfuscating]"
      using True by (simp add: obfuscate_says)
    ultimately show ?thesis using True r' s' i' e' s6 c6 randcrap_nonempty [of e w6]
      by (simp add: randcrap_def obfuscating_def)
  next
    case False
    then have "obfuscate e w6 = w6" by (auto simp: obfuscate_def)
    then show ?thesis using False r' s' i' e' s6 i6 c6 by (simp add: obfuscating_def)
  qed
qed

lemma run_home_again:
  "command later_env settled_world =
     Inr (Success ''Performed initial Mailpile setup'', settled_again)"
  by code_simp

text \<open>
  C2. Take a run of the command that lockdown does not stop and that returns, with
  migrations and a mailbox initialiser that leave salt, encrypted flag and recipient
  alone. The run makes the obfuscation assignment exactly when the recipient is
  non-empty (the recipient the key loop leaves, which is the one the step reads and the
  run returns), the index is not built and the salt was empty at the start. When it
  does, \<^verbatim>\<open>obfuscate_index\<close> is the \<^verbatim>\<open>sha512b64\<close> text of the random bytes, the recipient
  and the time, which is non-empty, \<^verbatim>\<open>index_encrypted\<close> is true, and the obfuscation
  message has been sent once more than before. When it does not, salt and flag are as
  they were and the message has not been sent again. And once the salt is non-empty,
  any number of runs, in whatever environments, returning or raising, leave the salt and
  the flag as they are and never send the message again, as long as the migrations and
  the mailbox initialiser leave salt and flag alone.
\<close>

theorem obfuscation_is_decided_once:
  "(\<not> lockdown (cfg w) \<and> command e w = Inr (r, w') \<and> hooks_keep obfuscate_index e \<and>
    hooks_keep index_encrypted e \<and> hooks_keep gpg_recipient e \<longrightarrow>
      (if gpg_recipient (cfg w') \<noteq> [] \<and> \<not> index_built e \<and> obfuscate_index (cfg w) = []
       then obfuscate_index (cfg w') =
              sha512b64 (sha512 e) [urandom e, gpg_recipient (cfg w'), time_time e] \<and>
            obfuscate_index (cfg w') \<noteq> [] \<and> index_encrypted (cfg w') \<and>
            count_list (events w') obfuscating = count_list (events w) obfuscating + 1
       else obfuscate_index (cfg w') = obfuscate_index (cfg w) \<and>
            index_encrypted (cfg w') = index_encrypted (cfg w) \<and>
            count_list (events w') obfuscating = count_list (events w) obfuscating)) \<and>
   (obfuscate_index (cfg w) \<noteq> [] \<and>
    (\<forall>e' \<in> set es. hooks_keep obfuscate_index e' \<and> hooks_keep index_encrypted e') \<longrightarrow>
      obfuscate_index (cfg (setup_runs es w)) = obfuscate_index (cfg w) \<and>
      index_encrypted (cfg (setup_runs es w)) = index_encrypted (cfg w) \<and>
      count_list (events (setup_runs es w)) obfuscating = count_list (events w) obfuscating)"
proof (intro conjI impI)
  assume "\<not> lockdown (cfg w) \<and> command e w = Inr (r, w') \<and> hooks_keep obfuscate_index e \<and>
    hooks_keep index_encrypted e \<and> hooks_keep gpg_recipient e"
  then show "if gpg_recipient (cfg w') \<noteq> [] \<and> \<not> index_built e \<and> obfuscate_index (cfg w) = []
       then obfuscate_index (cfg w') =
              sha512b64 (sha512 e) [urandom e, gpg_recipient (cfg w'), time_time e] \<and>
            obfuscate_index (cfg w') \<noteq> [] \<and> index_encrypted (cfg w') \<and>
            count_list (events w') obfuscating = count_list (events w) obfuscating + 1
       else obfuscate_index (cfg w') = obfuscate_index (cfg w) \<and>
            index_encrypted (cfg w') = index_encrypted (cfg w) \<and>
            count_list (events w') obfuscating = count_list (events w) obfuscating"
    using decision_of_a_run [of e w r w'] by blast
next
  assume a: "obfuscate_index (cfg w) \<noteq> [] \<and>
    (\<forall>e' \<in> set es. hooks_keep obfuscate_index e' \<and> hooks_keep index_encrypted e')"
  then have "no_decision w (setup_runs es w)" using setup_runs_no_decision [of es w] by blast
  then show "obfuscate_index (cfg (setup_runs es w)) = obfuscate_index (cfg w)"
      "index_encrypted (cfg (setup_runs es w)) = index_encrypted (cfg w)"
      "count_list (events (setup_runs es w)) obfuscating = count_list (events w) obfuscating"
    by (simp_all add: no_decision_def says_count)
qed

theorem obfuscation_is_decided_once_witness:
  "\<not> lockdown (cfg fresh_world) \<and>
   command home_env fresh_world = Inr (Success ''Performed initial Mailpile setup'', settled_world) \<and>
   hooks_keep obfuscate_index home_env \<and> hooks_keep index_encrypted home_env \<and>
   hooks_keep gpg_recipient home_env \<and>
   gpg_recipient (cfg settled_world) \<noteq> [] \<and> \<not> index_built home_env \<and>
   obfuscate_index (cfg fresh_world) = [] \<and>
   obfuscate_index (cfg settled_world) =
     sha512b64 (sha512 home_env) [urandom home_env, ''KEYA'', time_time home_env] \<and>
   obfuscate_index (cfg settled_world) \<noteq> [] \<and> index_encrypted (cfg settled_world) \<and>
   count_list (events settled_world) obfuscating = 1 \<and>
   hooks_keep obfuscate_index later_env \<and> hooks_keep index_encrypted later_env \<and>
   hooks_keep gpg_recipient later_env \<and>
   sha512b64 (sha512 later_env) [urandom later_env, ''KEYA'', time_time later_env] \<noteq>
     obfuscate_index (cfg settled_world) \<and>
   command later_env settled_world = Inr (Success ''Performed initial Mailpile setup'', settled_again) \<and>
   obfuscate_index (cfg settled_again) = obfuscate_index (cfg settled_world) \<and>
   count_list (events settled_again) obfuscating = 1 \<and>
   obfuscate_index (cfg (setup_runs [later_env, later_env] settled_world)) =
     obfuscate_index (cfg settled_world) \<and>
   count_list (events (setup_runs [later_env, later_env] settled_world)) obfuscating = 1"
proof -
  have h: "\<not> lockdown (cfg fresh_world) \<and> hooks_keep obfuscate_index home_env \<and>
      hooks_keep index_encrypted home_env \<and> hooks_keep gpg_recipient home_env \<and>
      hooks_keep obfuscate_index later_env \<and> hooks_keep index_encrypted later_env \<and>
      hooks_keep gpg_recipient later_env \<and> \<not> index_built home_env \<and>
      obfuscate_index (cfg fresh_world) = []"
    by (simp add: ex_defs later_env_def hooks_keep_def)
  have g: "gpg_recipient (cfg settled_world) = ''KEYA''" "\<not> lockdown (cfg settled_world)"
      "count_list (events fresh_world) obfuscating = 0"
    by (simp_all add: settled_world_def settled_config_def fresh_world_def)
  have a: "obfuscate_index (cfg settled_world) =
       sha512b64 (sha512 home_env) [urandom home_env, ''KEYA'', time_time home_env] \<and>
     obfuscate_index (cfg settled_world) \<noteq> [] \<and> index_encrypted (cfg settled_world) \<and>
     count_list (events settled_world) obfuscating = 1"
    using obfuscation_is_decided_once
      [of fresh_world home_env "Success ''Performed initial Mailpile setup''" settled_world "[]"]
      h g run_home
    by (simp add: sha512b64_nonempty)
  have b: "obfuscate_index (cfg settled_again) = obfuscate_index (cfg settled_world) \<and>
     count_list (events settled_again) obfuscating = 1"
    using obfuscation_is_decided_once
      [of settled_world later_env "Success ''Performed initial Mailpile setup''" settled_again "[]"]
      h g a run_home_again
    by (simp add: sha512b64_nonempty)
  have c: "obfuscate_index (cfg (setup_runs [later_env, later_env] settled_world)) =
       obfuscate_index (cfg settled_world) \<and>
     count_list (events (setup_runs [later_env, later_env] settled_world)) obfuscating = 1"
    using obfuscation_is_decided_once
      [of settled_world later_env "Success ''Performed initial Mailpile setup''" settled_again
          "[later_env, later_env]"]
      h a
    by (simp add: sha512b64_nonempty)
  have d: "sha512b64 (sha512 later_env) [urandom later_env, ''KEYA'', time_time later_env] \<noteq>
     obfuscate_index (cfg settled_world)"
    by code_simp
  have g1: "gpg_recipient (cfg settled_world) \<noteq> []" using g(1) by simp
  show ?thesis using h g1 a b c d run_home run_home_again by blast
qed

subsection \<open>The standard tags in the store\<close>

lemma update_first_apply:
  "update_first t d ts = (if map_of ts t = None then None else Some (apply_first t d ts))"
  by (induction ts) auto

lemma map_fst_apply_first: "map fst (apply_first t d ts) = map fst ts"
  by (induction ts) auto

lemma map_of_apply_first:
  "map_of (apply_first t d ts) k =
     (if k = t then map_option (\<lambda>a. dict_update a d) (map_of ts t) else map_of ts k)"
  by (induction ts) auto

lemma tag_step_store:
  "fst td \<noteq> [] \<Longrightarrow>
   tag_step store_api td (w, created) =
     Inr (on_cfg (tags_update (\<lambda>_. ensure_tag td (tags (cfg w)))) w,
          if map_of (tags (cfg w)) (fst td) = None then created @ [fst td] else created)"
  by (cases td)
     (auto simp: tag_step_def no_tag_id_def store_api_def store_get_tag_id_def
        store_AddTag_run_def store_get_tag_update_def update_first_apply ensure_tag_def
        on_cfg_def split: option.splits)

lemma tags_loop_store:
  "\<forall>td \<in> set tds. fst td \<noteq> [] \<Longrightarrow>
   \<exists>created'. tags_loop store_api tds (w, created) =
     Inr (on_cfg (tags_update (\<lambda>_. fold ensure_tag tds (tags (cfg w)))) w, created')"
proof (induction tds arbitrary: w created)
  case Nil
  then show ?case by (simp add: on_cfg_def)
next
  case (Cons td tds)
  let ?w1 = "on_cfg (tags_update (\<lambda>_. ensure_tag td (tags (cfg w)))) w"
  have k: "fst td \<noteq> []" and ks: "\<forall>td \<in> set tds. fst td \<noteq> []" using Cons.prems by simp_all
  obtain c1 where s: "tag_step store_api td (w, created) = Inr (?w1, c1)"
    using tag_step_store [OF k, of w created] by simp
  obtain c2 where "tags_loop store_api tds (?w1, c1) =
     Inr (on_cfg (tags_update (\<lambda>_. fold ensure_tag tds (tags (cfg ?w1)))) ?w1, c2)"
    using Cons.IH [OF ks, of ?w1 c1] by blast
  then show ?case using s by (simp add: on_cfg_def)
qed

lemma count_ensure_tag:
  "count_list (map fst (ensure_tag td ts)) k =
     (if k = fst td \<and> map_of ts k = None then 1 else count_list (map fst ts) k)"
  by (auto simp: ensure_tag_def map_fst_apply_first map_of_eq_None_iff count_list_0_iff)

lemma count_fold_ensure_tag:
  "count_list (map fst ts) k \<le> 1 \<Longrightarrow> k \<in> fst ` set tds \<or> count_list (map fst ts) k = 1 \<Longrightarrow>
     count_list (map fst (fold ensure_tag tds ts)) k = 1"
proof (induction tds arbitrary: ts)
  case Nil
  then show ?case by simp
next
  case (Cons td tds)
  have c: "count_list (map fst (ensure_tag td ts)) k \<le> 1"
    using Cons.prems(1) by (simp add: count_ensure_tag)
  have "k \<in> fst ` set tds \<or> count_list (map fst (ensure_tag td ts)) k = 1"
  proof (cases "k = fst td")
    case True
    then show ?thesis using Cons.prems(1)
      by (auto simp: count_ensure_tag map_of_eq_None_iff count_list_0_iff le_Suc_eq)
  next
    case False
    then show ?thesis using Cons.prems(2) by (auto simp: count_ensure_tag)
  qed
  then show ?case using Cons.IH [OF c] by simp
qed

lemma map_of_fold_update_other:
  "x \<notin> fst ` set d \<Longrightarrow> map_of (fold (\<lambda>(a, v). AList.update a v) d al) x = map_of al x"
  by (induction d arbitrary: al) (auto simp: update_conv')

lemma map_of_dict_update:
  "distinct (map fst d) \<Longrightarrow> xv \<in> set d \<Longrightarrow> map_of (dict_update a d) (fst xv) = Some (snd xv)"
  unfolding dict_update_def
proof (induction d arbitrary: a)
  case Nil
  then show ?case by simp
next
  case (Cons p d)
  show ?case
  proof (cases "xv = p")
    case True
    then have "fst xv \<notin> fst ` set d" using Cons.prems(1) by auto
    then show ?thesis using True
      by (cases p) (simp add: map_of_fold_update_other update_conv')
  next
    case False
    then have "xv \<in> set d" using Cons.prems(2) by simp
    then show ?thesis using Cons.IH [of "AList.update (fst p) (snd p) a"] Cons.prems(1)
      by (cases p) simp
  qed
qed

lemma dict_update_id:
  "\<forall>xv \<in> set d. map_of a (fst xv) = Some (snd xv) \<Longrightarrow> dict_update a d = a"
  unfolding dict_update_def
  by (induction d) (auto simp: update_triv)

lemma apply_first_id:
  "map_of ts t = Some a \<Longrightarrow> dict_update a d = a \<Longrightarrow> apply_first t d ts = ts"
  by (induction ts) (auto split: if_splits)

lemma ensure_tag_id: "tag_settled ts td \<Longrightarrow> ensure_tag td ts = ts"
  by (auto simp: tag_settled_def ensure_tag_def dict_update_id apply_first_id)

lemma map_of_ensure_tag_other:
  "k \<noteq> fst td \<Longrightarrow> map_of (ensure_tag td ts) k = map_of ts k"
  by (auto simp: ensure_tag_def map_of_apply_first map_add_def split: option.splits)

lemma ensure_tag_settles:
  "distinct (map fst (snd td)) \<Longrightarrow> tag_settled (ensure_tag td ts) td"
  by (auto simp: tag_settled_def ensure_tag_def map_of_apply_first map_of_dict_update
        map_add_def split: option.splits)

lemma ensure_tag_keeps_settled:
  assumes "tag_settled ts td" and "fst td' = fst td \<longrightarrow> snd td' = snd td"
  shows "tag_settled (ensure_tag td' ts) td"
proof (cases "fst td' = fst td")
  case True
  then have "td' = td" using assms(2) by (simp add: prod_eq_iff)
  then show ?thesis using assms(1) by (simp add: ensure_tag_id)
next
  case False
  then show ?thesis using assms(1) map_of_ensure_tag_other [of "fst td" td' ts]
    by (simp add: tag_settled_def)
qed

lemma fold_ensure_tag_keeps_settled:
  "tag_settled ts td \<Longrightarrow> \<forall>td' \<in> set tds. fst td' = fst td \<longrightarrow> snd td' = snd td \<Longrightarrow>
     tag_settled (fold ensure_tag tds ts) td"
proof (induction tds arbitrary: ts)
  case Nil
  then show ?case by simp
next
  case (Cons td' tds)
  have "tag_settled (ensure_tag td' ts) td"
    using ensure_tag_keeps_settled [OF Cons.prems(1), of td'] Cons.prems(2) by simp
  then show ?case using Cons.IH [of "ensure_tag td' ts"] Cons.prems(2) by simp
qed

lemma table_ok_Cons:
  "table_ok (td # tds) \<Longrightarrow>
     table_ok tds \<and> distinct (map fst (snd td)) \<and>
     (\<forall>x \<in> set tds. fst x = fst td \<longrightarrow> snd x = snd td)"
  unfolding table_ok_def by (metis list.set_intros(1) list.set_intros(2))

lemma fold_ensure_tag_settles:
  "table_ok tds \<Longrightarrow> td \<in> set tds \<Longrightarrow> tag_settled (fold ensure_tag tds ts) td"
proof (induction tds arbitrary: ts)
  case Nil
  then show ?case by simp
next
  case (Cons td' tds)
  note ok = table_ok_Cons [OF Cons.prems(1)]
  show ?case
  proof (cases "td = td'")
    case True
    have a: "tag_settled (ensure_tag td' ts) td'"
      using ok by (simp only: ensure_tag_settles)
    have "tag_settled (fold ensure_tag tds (ensure_tag td' ts)) td'"
      using a ok by (rule_tac fold_ensure_tag_keeps_settled) blast+
    then show ?thesis unfolding True by simp
  next
    case False
    then have m: "td \<in> set tds" using Cons.prems(2) by simp
    have "tag_settled (fold ensure_tag tds (ensure_tag td' ts)) td"
      using ok m by (rule_tac Cons.IH) blast+
    then show ?thesis by simp
  qed
qed

lemma fold_ensure_tag_id:
  "\<forall>td \<in> set tds. tag_settled ts td \<Longrightarrow> fold ensure_tag tds ts = ts"
  by (induction tds) (auto simp: ensure_tag_id)

lemma tags_loop_settled:
  "\<forall>td \<in> set tds. fst td \<noteq> [] \<and> tag_settled (tags (cfg w)) td \<Longrightarrow>
     tags_loop store_api tds (w, created) = Inr (w, created)"
proof (induction tds)
  case Nil
  then show ?case by simp
next
  case (Cons td tds)
  have s: "tag_settled (tags (cfg w)) td" and k: "fst td \<noteq> []" using Cons.prems by simp_all
  then have "map_of (tags (cfg w)) (fst td) \<noteq> None" by (auto simp: tag_settled_def)
  then have "tag_step store_api td (w, created) = Inr (w, created)"
    using s k by (simp add: tag_step_store ensure_tag_id on_cfg_def)
  then show ?case using Cons by simp
qed

lemma TAGS_keys: "distinct (map fst TAGS)"
  by (simp add: TAGS_def)

lemma TAGS_dicts: "\<forall>td \<in> set TAGS. distinct (map fst (snd td))"
  by (simp add: TAGS_def)

lemma TAGS_not_attribute:
  "td \<in> set TAGS \<Longrightarrow> fst td \<noteq> tagname ''sig'' status \<and> fst td \<noteq> tagname ''enc'' status"
  by (auto simp: TAGS_def tagname_def)

lemma attribute_tags_cases:
  "td \<in> set (attribute_tags e) \<Longrightarrow>
     snd td = attribute_attrs \<and>
     (\<exists>status. fst td = tagname ''sig'' status \<or> fst td = tagname ''enc'' status)"
  by (auto simp: attribute_tags_def)

lemma standard_tags_keys: "td \<in> set (standard_tags e) \<Longrightarrow> fst td \<noteq> []"
proof -
  assume "td \<in> set (standard_tags e)"
  then consider "td \<in> set TAGS" | "td \<in> set (attribute_tags e)"
    by (auto simp: standard_tags_def)
  then show ?thesis
  proof cases
    case 1
    then show ?thesis by (auto simp: TAGS_def)
  next
    case 2
    then show ?thesis using attribute_tags_cases [of td e] by (auto simp: tagname_def)
  qed
qed

lemma standard_tags_ok: "table_ok (standard_tags e)"
proof -
  have d: "\<forall>td \<in> set (standard_tags e). distinct (map fst (snd td))"
  proof
    fix td assume "td \<in> set (standard_tags e)"
    then consider "td \<in> set TAGS" | "td \<in> set (attribute_tags e)"
      by (auto simp: standard_tags_def)
    then show "distinct (map fst (snd td))"
    proof cases
      case 1
      then show ?thesis using TAGS_dicts by blast
    next
      case 2
      then have "snd td = attribute_attrs" using attribute_tags_cases by blast
      then show ?thesis by (simp add: attribute_attrs_def)
    qed
  qed
  have c: "\<forall>td \<in> set (standard_tags e). \<forall>td' \<in> set (standard_tags e).
             fst td = fst td' \<longrightarrow> snd td = snd td'"
  proof (intro ballI impI)
    fix td td' assume m: "td \<in> set (standard_tags e)" "td' \<in> set (standard_tags e)"
      and k: "fst td = fst td'"
    consider (tt) "td \<in> set TAGS" "td' \<in> set TAGS"
      | (ta) "td \<in> set TAGS" "td' \<in> set (attribute_tags e)"
      | (at) "td \<in> set (attribute_tags e)" "td' \<in> set TAGS"
      | (aa) "td \<in> set (attribute_tags e)" "td' \<in> set (attribute_tags e)"
      using m by (auto simp: standard_tags_def)
    then show "snd td = snd td'"
    proof cases
      case tt
      obtain k v where td: "td = (k, v)" by (cases td)
      obtain k' v' where td': "td' = (k', v')" by (cases td')
      have "(k, v) \<in> set TAGS" "(k, v') \<in> set TAGS"
        using tt k td td' by simp_all
      with TAGS_keys have "v = v'" by (rule eq_key_imp_eq_value)
      then show ?thesis using td td' by simp
    next
      case ta
      obtain status where "fst td' = tagname ''sig'' status \<or> fst td' = tagname ''enc'' status"
        using attribute_tags_cases [OF ta(2)] by blast
      moreover have "fst td' \<noteq> tagname ''sig'' status \<and> fst td' \<noteq> tagname ''enc'' status"
        using TAGS_not_attribute [OF ta(1), of status] k by simp
      ultimately show ?thesis by blast
    next
      case at
      obtain status where "fst td = tagname ''sig'' status \<or> fst td = tagname ''enc'' status"
        using attribute_tags_cases [OF at(1)] by blast
      moreover have "fst td \<noteq> tagname ''sig'' status \<and> fst td \<noteq> tagname ''enc'' status"
        using TAGS_not_attribute [OF at(2), of status] k by simp
      ultimately show ?thesis by blast
    next
      case aa
      then show ?thesis using attribute_tags_cases [of td e] attribute_tags_cases [of td' e] by simp
    qed
  qed
  show ?thesis unfolding table_ok_def using d c by (rule conjI)
qed

lemma only_tags_field:
  assumes "only_tags w w'"
  shows "lockdown (cfg w') = lockdown (cfg w)"
proof -
  have "cfg w' = (cfg w)\<lparr>tags := tags (cfg w')\<rparr>" using assms by (simp add: only_tags_def)
  then have "lockdown (cfg w') = lockdown ((cfg w)\<lparr>tags := tags (cfg w')\<rparr>)" by simp
  then show ?thesis by simp
qed

lemma create_tags_store:
  assumes "tag_ops e = store_api"
  shows "\<exists>evs. create_tags e w =
     Inr (w\<lparr>cfg := (cfg w)\<lparr>tags := fold ensure_tag (standard_tags e) (tags (cfg w))\<rparr>,
            events := events w @ evs\<rparr>)"
proof -
  obtain created where
    "tags_loop store_api (standard_tags e) (w, []) =
       Inr (on_cfg (tags_update (\<lambda>_. fold ensure_tag (standard_tags e) (tags (cfg w)))) w, created)"
    using tags_loop_store [of "standard_tags e" w "[]"] standard_tags_keys by blast
  then have r: "create_tags e w =
     Inr (w\<lparr>cfg := (cfg w)\<lparr>tags := fold ensure_tag (standard_tags e) (tags (cfg w))\<rparr>,
            events := events w @ (if ''New'' \<in> set created then [Notify ''Created default tags''] else [])\<rparr>)"
    using assms by (simp add: create_tags_def on_cfg_def notify_def)
  show ?thesis by (rule exI, rule r)
qed

text \<open>The stages after the tag loops leave tags and lockdown alone.\<close>

lemma later_stages_keep:
  "tags (cfg (import_plugins e w)) = tags (cfg w)"
  "lockdown (cfg (import_plugins e w)) = lockdown (cfg w)"
  "tags (cfg (setup_importers e w)) = tags (cfg w)"
  "lockdown (cfg (setup_importers e w)) = lockdown (cfg w)"
  "tags (cfg (obfuscate e w)) = tags (cfg w)"
  "lockdown (cfg (obfuscate e w)) = lockdown (cfg w)"
  "tags (cfg (final_world (\<lambda>w. w) (discover_keys e w))) = tags (cfg w)"
  "lockdown (cfg (final_world (\<lambda>w. w) (discover_keys e w))) = lockdown (cfg w)"
proof -
  show "tags (cfg (import_plugins e w)) = tags (cfg w)"
    by (subst import_plugins_cfg [THEN conjunct1]) simp
  show "lockdown (cfg (import_plugins e w)) = lockdown (cfg w)"
    by (subst import_plugins_cfg [THEN conjunct1]) simp
  show "tags (cfg (setup_importers e w)) = tags (cfg w)"
    by (subst setup_importers_cfg) simp
  show "lockdown (cfg (setup_importers e w)) = lockdown (cfg w)"
    by (subst setup_importers_cfg) simp
  show "tags (cfg (obfuscate e w)) = tags (cfg w)"
    by (subst obfuscate_cfg) simp
  show "lockdown (cfg (obfuscate e w)) = lockdown (cfg w)"
    by (subst obfuscate_cfg) simp
  show "tags (cfg (final_world (\<lambda>w. w) (discover_keys e w))) = tags (cfg w)"
    by (subst discover_keys_cfg) simp
  show "lockdown (cfg (final_world (\<lambda>w. w) (discover_keys e w))) = lockdown (cfg w)"
    by (subst discover_keys_cfg) simp
qed

lemma command_tags:
  assumes "tag_ops e = store_api" and "hooks_keep tags e" and "hooks_keep lockdown e"
  shows "tags (cfg (final_world snd (command e w))) =
           (if lockdown (cfg w) then tags (cfg w)
            else fold ensure_tag (standard_tags e) (tags (cfg w))) \<and>
         lockdown (cfg (final_world snd (command e w))) = lockdown (cfg w)"
proof (cases "lockdown (cfg w)")
  case True
  then show ?thesis by (simp add: command_def final_world_def)
next
  case False
  let ?w2 = "on_cfg (open_local_mailbox e) (on_cfg (migrate e True False) w)"
  have t2: "tags (cfg ?w2) = tags (cfg w)" "lockdown (cfg ?w2) = lockdown (cfg w)"
    using assms(2,3) by (simp_all add: hooks_keep_def on_cfg_def)
  obtain evs where c: "create_tags e ?w2 =
     Inr (?w2\<lparr>cfg := (cfg ?w2)\<lparr>tags := fold ensure_tag (standard_tags e) (tags (cfg ?w2))\<rparr>,
            events := events ?w2 @ evs\<rparr>)"
    using create_tags_store [OF assms(1), of ?w2] by blast
  let ?w3 = "?w2\<lparr>cfg := (cfg ?w2)\<lparr>tags := fold ensure_tag (standard_tags e) (tags (cfg ?w2))\<rparr>,
            events := events ?w2 @ evs\<rparr>"
  have t3: "tags (cfg ?w3) = fold ensure_tag (standard_tags e) (tags (cfg w))"
      "lockdown (cfg ?w3) = lockdown (cfg w)"
    using t2 by simp_all
  let ?w5 = "setup_importers e (import_plugins e ?w3)"
  have t5: "tags (cfg ?w5) = fold ensure_tag (standard_tags e) (tags (cfg w))"
      "lockdown (cfg ?w5) = lockdown (cfg w)"
    using t3 by (simp_all only: later_stages_keep)
  have t6: "tags (cfg (final_world (\<lambda>w. w) (discover_keys e ?w5))) =
        fold ensure_tag (standard_tags e) (tags (cfg w))"
      "lockdown (cfg (final_world (\<lambda>w. w) (discover_keys e ?w5))) = lockdown (cfg w)"
    using t5 by (simp_all only: later_stages_keep)
  show ?thesis
  proof (cases "discover_keys e ?w5")
    case (Inl x)
    then have "final_world snd (command e w) = final_world (\<lambda>w. w) (discover_keys e ?w5)"
      using False c by (simp add: command_unfold final_world_def)
    then show ?thesis using t6 False by simp
  next
    case (Inr w6)
    then have w6: "final_world (\<lambda>w. w) (discover_keys e ?w5) = w6" by (simp add: final_world_def)
    have f: "final_world snd (command e w) = save (on_cfg (migrate e False True) (obfuscate e w6))"
      using False c Inr by (simp add: command_unfold final_world_def)
    have "tags (cfg (obfuscate e w6)) = fold ensure_tag (standard_tags e) (tags (cfg w))"
        "lockdown (cfg (obfuscate e w6)) = lockdown (cfg w)"
      using t6 w6 by (simp_all add: later_stages_keep)
    then show ?thesis using f False assms(2,3)
      by (simp add: save_def on_cfg_def hooks_keep_def)
  qed
qed

lemma one_pass_settles:
  assumes "td \<in> set (standard_tags e)" and "count_list (map fst ts) (fst td) \<le> 1"
  shows "count_list (map fst (fold ensure_tag (standard_tags e) ts)) (fst td) = 1 \<and>
         tag_settled (fold ensure_tag (standard_tags e) ts) td"
proof -
  have "fst td \<in> fst ` set (standard_tags e)" using assms(1) by (rule imageI)
  then have "count_list (map fst (fold ensure_tag (standard_tags e) ts)) (fst td) = 1"
    using count_fold_ensure_tag [OF assms(2), of "standard_tags e"] by simp
  moreover have "tag_settled (fold ensure_tag (standard_tags e) ts) td"
    using standard_tags_ok assms(1) by (rule fold_ensure_tag_settles)
  ultimately show ?thesis ..
qed

lemma setup_runs_keep_tags:
  assumes "\<forall>e' \<in> set es. tag_ops e' = store_api \<and> hooks_keep tags e' \<and> hooks_keep lockdown e' \<and>
             standard_tags e' = standard_tags e"
    and "\<not> lockdown (cfg w)"
    and "td \<in> set (standard_tags e)"
    and "count_list (map fst (tags (cfg w))) (fst td) \<le> 1"
    and "es \<noteq> []"
  shows "count_list (map fst (tags (cfg (setup_runs es w)))) (fst td) = 1 \<and>
         tag_settled (tags (cfg (setup_runs es w))) td"
  using assms
proof (induction es arbitrary: w)
  case Nil
  then show ?case by simp
next
  case (Cons e1 es)
  let ?w1 = "final_world snd (command e1 w)"
  have h1: "tag_ops e1 = store_api" "hooks_keep tags e1" "hooks_keep lockdown e1"
      "standard_tags e1 = standard_tags e"
    using Cons.prems(1) by simp_all
  have t1: "tags (cfg ?w1) = fold ensure_tag (standard_tags e) (tags (cfg w))"
    and l1: "\<not> lockdown (cfg ?w1)"
    using command_tags [OF h1(1,2,3), of w] h1(4) Cons.prems(2) by simp_all
  have i1: "count_list (map fst (tags (cfg ?w1))) (fst td) = 1 \<and> tag_settled (tags (cfg ?w1)) td"
    unfolding t1 using Cons.prems(3,4) by (rule one_pass_settles)
  show ?case
  proof (cases "es = []")
    case True
    then show ?thesis using i1 by simp
  next
    case False
    have a: "\<forall>e' \<in> set es. tag_ops e' = store_api \<and> hooks_keep tags e' \<and> hooks_keep lockdown e' \<and>
             standard_tags e' = standard_tags e"
      using Cons.prems(1) by simp
    have b: "count_list (map fst (tags (cfg ?w1))) (fst td) \<le> 1" using i1 by simp
    have "count_list (map fst (tags (cfg (setup_runs es ?w1)))) (fst td) = 1 \<and>
         tag_settled (tags (cfg (setup_runs es ?w1))) td"
      by (rule Cons.IH [OF a l1 Cons.prems(3) b False])
    then show ?thesis by simp
  qed
qed

text \<open>What the tag found under a key holds after the loops.\<close>

lemma fold_update_fresh:
  "distinct (map fst (a @ d)) \<Longrightarrow> fold (\<lambda>(x, v). AList.update x v) d a = a @ d"
proof (induction d arbitrary: a)
  case Nil
  then show ?case by simp
next
  case (Cons p d)
  obtain x v where p: "p = (x, v)" by (cases p)
  have "x \<notin> fst ` set a" using Cons.prems p by auto
  then have u: "AList.update x v a = a @ [(x, v)]"
    by (induction a) auto
  have "distinct (map fst ((a @ [(x, v)]) @ d))" using Cons.prems p by simp
  then have "fold (\<lambda>(x, v). AList.update x v) d (a @ [(x, v)]) = (a @ [(x, v)]) @ d"
    by (rule Cons.IH)
  then show ?case using p u by simp
qed

lemma dict_update_Nil: "distinct (map fst d) \<Longrightarrow> dict_update [] d = d"
  using fold_update_fresh [of "[]" d] by (simp add: dict_update_def)

lemma map_of_dict_update_other:
  "x \<notin> fst ` set d \<Longrightarrow> map_of (dict_update a d) x = map_of a x"
  by (simp add: dict_update_def map_of_fold_update_other)

lemma map_of_ensure_tag_same:
  "map_of (ensure_tag td ts) (fst td) =
     Some (dict_update (case map_of ts (fst td) of None \<Rightarrow> [] | Some a \<Rightarrow> a) (snd td))"
  by (auto simp: ensure_tag_def map_of_apply_first map_add_def split: option.splits)

lemma fold_ensure_tag_stays:
  assumes "distinct (map fst d)"
  shows "map_of ts K = Some (dict_update a0 d) \<Longrightarrow>
     \<forall>td' \<in> set tds. fst td' = K \<longrightarrow> snd td' = d \<Longrightarrow>
     map_of (fold ensure_tag tds ts) K = Some (dict_update a0 d)"
proof (induction tds arbitrary: ts)
  case Nil
  then show ?case by simp
next
  case (Cons td' tds)
  have "map_of (ensure_tag td' ts) K = Some (dict_update a0 d)"
  proof (cases "fst td' = K")
    case True
    then have sd: "snd td' = d" using Cons.prems(2) by simp
    have i: "dict_update (dict_update a0 d) d = dict_update a0 d"
      using assms by (intro dict_update_id ballI) (rule map_of_dict_update)
    have "map_of (ensure_tag td' ts) K =
        Some (dict_update (case map_of ts K of None \<Rightarrow> [] | Some a \<Rightarrow> a) d)"
      using map_of_ensure_tag_same [of td' ts] unfolding True sd .
    then show ?thesis unfolding Cons.prems(1) by (simp add: i)
  next
    case False
    then show ?thesis using Cons.prems(1) map_of_ensure_tag_other [of K td' ts] by simp
  qed
  then show ?case using Cons.IH [of "ensure_tag td' ts"] Cons.prems(2) by simp
qed

lemma fold_ensure_tag_exact:
  "table_ok tds \<Longrightarrow> (K, d) \<in> set tds \<Longrightarrow>
     map_of (fold ensure_tag tds ts) K =
       Some (dict_update (case map_of ts K of None \<Rightarrow> [] | Some a \<Rightarrow> a) d)"
proof (induction tds arbitrary: ts)
  case Nil
  then show ?case by simp
next
  case (Cons td' tds)
  note ok = table_ok_Cons [OF Cons.prems(1)]
  have "\<forall>x \<in> set (td' # tds). distinct (map fst (snd x))"
    using Cons.prems(1) unfolding table_ok_def by (rule conjunct1)
  then have "distinct (map fst (snd (K, d)))" using Cons.prems(2) by (rule bspec)
  then have dd: "distinct (map fst d)" by simp
  show ?case
  proof (cases "fst td' = K")
    case True
    have c: "\<forall>x \<in> set (td' # tds). \<forall>y \<in> set (td' # tds). fst x = fst y \<longrightarrow> snd x = snd y"
      using Cons.prems(1) unfolding table_ok_def by (rule conjunct2)
    have "td' \<in> set (td' # tds)" by simp
    with c have "\<forall>y \<in> set (td' # tds). fst td' = fst y \<longrightarrow> snd td' = snd y" by (rule bspec)
    then have "fst td' = fst (K, d) \<longrightarrow> snd td' = snd (K, d)" using Cons.prems(2) by (rule bspec)
    then have sd: "snd td' = d" using True by simp
    have m: "map_of (ensure_tag td' ts) K =
        Some (dict_update (case map_of ts K of None \<Rightarrow> [] | Some a \<Rightarrow> a) d)"
      using map_of_ensure_tag_same [of td' ts] unfolding True sd .
    have "\<forall>x \<in> set tds. fst x = K \<longrightarrow> snd x = d"
      using ok unfolding True sd by blast
    with dd m have "map_of (fold ensure_tag tds (ensure_tag td' ts)) K =
        Some (dict_update (case map_of ts K of None \<Rightarrow> [] | Some a \<Rightarrow> a) d)"
      by (rule fold_ensure_tag_stays)
    then show ?thesis by simp
  next
    case False
    then have "(K, d) \<in> set tds" using Cons.prems(2) by auto
    moreover have "table_ok tds" using ok by simp
    ultimately have "map_of (fold ensure_tag tds (ensure_tag td' ts)) K =
        Some (dict_update (case map_of (ensure_tag td' ts) K of None \<Rightarrow> [] | Some a \<Rightarrow> a) d)"
      using Cons.IH by blast
    then show ?thesis using False map_of_ensure_tag_other [of K td' ts] by simp
  qed
qed

lemma TAGS_key_list:
  "map fst TAGS =
     [''New'', ''Inbox'', ''Blank'', ''Drafts'', ''Outbox'', ''Sent'', ''Spam'', ''MaybeSpam'',
      ''Ham'', ''Trash'', ''All Mail'', ''Photos'', ''Files'', ''Links'', ''mp_rpl'', ''mp_fwd'',
      ''mp_tag'', ''mp_read'', ''mp_ham'']"
  by (simp add: TAGS_def)

lemma canonical_standard:
  assumes "K \<in> set (map fst TAGS) \<or> (\<exists>status \<in> set (sig_STATUSES e). K = ''mp_sig-'' @ status) \<or>
     (\<exists>status \<in> set (enc_STATUSES e). K = ''mp_enc-'' @ status)"
  shows "\<exists>d. canonical K = Some d \<and> (K, d) \<in> set (standard_tags e)"
proof -
  consider (t) "K \<in> set (map fst TAGS)"
    | (s) status where "status \<in> set (sig_STATUSES e)" "K = ''mp_sig-'' @ status"
    | (c) status where "status \<in> set (enc_STATUSES e)" "K = ''mp_enc-'' @ status"
    using assms by blast
  then show ?thesis
  proof cases
    case t
    then obtain d where "map_of TAGS K = Some d"
      by (metis map_of_eq_None_iff not_Some_eq set_map)
    then show ?thesis using map_of_SomeD [of TAGS K d]
      by (simp add: canonical_def standard_tags_def)
  next
    case s
    have "map_of TAGS K = None"
    proof (rule ccontr)
      assume "map_of TAGS K \<noteq> None"
      then obtain d where "(K, d) \<in> set TAGS" using map_of_SomeD by fastforce
      then show False using TAGS_not_attribute [of "(K, d)" status] s(2) by (simp add: tagname_def)
    qed
    moreover have "(K, attribute_attrs) \<in> set (attribute_tags e)"
      using s by (auto simp: attribute_tags_def tagname_def)
    ultimately show ?thesis using s(2)
      by (simp add: canonical_def standard_tags_def attribute_attrs_def)
  next
    case c
    have "map_of TAGS K = None"
    proof (rule ccontr)
      assume "map_of TAGS K \<noteq> None"
      then obtain d where "(K, d) \<in> set TAGS" using map_of_SomeD by fastforce
      then show False using TAGS_not_attribute [of "(K, d)" status] c(2) by (simp add: tagname_def)
    qed
    moreover have "(K, attribute_attrs) \<in> set (attribute_tags e)"
      using c by (auto simp: attribute_tags_def tagname_def)
    ultimately show ?thesis using c(2)
      by (simp add: canonical_def standard_tags_def attribute_attrs_def)
  qed
qed

lemma setup_runs_update_tags:
  assumes "\<forall>e' \<in> set es. tag_ops e' = store_api \<and> hooks_keep tags e' \<and> hooks_keep lockdown e' \<and>
             sig_STATUSES e' = sig_STATUSES e \<and> enc_STATUSES e' = enc_STATUSES e"
    and "\<not> lockdown (cfg w)"
    and "(K, d) \<in> set (standard_tags e)"
    and "count_list (map fst (tags (cfg w))) K \<le> 1"
    and "es \<noteq> []"
  shows "count_list (map fst (tags (cfg (setup_runs es w)))) K = 1 \<and>
         map_of (tags (cfg (setup_runs es w))) K =
           Some (dict_update (case map_of (tags (cfg w)) K of None \<Rightarrow> [] | Some a \<Rightarrow> a) d)"
  using assms
proof (induction es arbitrary: w)
  case Nil
  then show ?case by simp
next
  case (Cons e1 es)
  let ?w1 = "final_world snd (command e1 w)"
  let ?A = "dict_update (case map_of (tags (cfg w)) K of None \<Rightarrow> [] | Some a \<Rightarrow> a) d"
  have h1: "tag_ops e1 = store_api" "hooks_keep tags e1" "hooks_keep lockdown e1"
    using Cons.prems(1) by simp_all
  have "sig_STATUSES e1 = sig_STATUSES e \<and> enc_STATUSES e1 = enc_STATUSES e"
    using Cons.prems(1) by simp
  then have st: "standard_tags e1 = standard_tags e"
    by (simp add: standard_tags_def attribute_tags_def)
  have t1: "tags (cfg ?w1) = fold ensure_tag (standard_tags e) (tags (cfg w))"
    and l1: "\<not> lockdown (cfg ?w1)"
    using command_tags [OF h1, of w] st Cons.prems(2) by simp_all
  have "count_list (map fst (tags (cfg w))) (fst (K, d)) \<le> 1" using Cons.prems(4) by simp
  then have c1: "count_list (map fst (tags (cfg ?w1))) K = 1"
    unfolding t1 using one_pass_settles [OF Cons.prems(3), of "tags (cfg w)"] by simp
  have m1: "map_of (tags (cfg ?w1)) K = Some ?A"
    unfolding t1 using standard_tags_ok Cons.prems(3) by (rule fold_ensure_tag_exact)
  show ?case
  proof (cases "es = []")
    case True
    then show ?thesis using c1 m1 by simp
  next
    case False
    have a: "\<forall>e' \<in> set es. tag_ops e' = store_api \<and> hooks_keep tags e' \<and> hooks_keep lockdown e' \<and>
             sig_STATUSES e' = sig_STATUSES e \<and> enc_STATUSES e' = enc_STATUSES e"
      using Cons.prems(1) by simp
    have b: "count_list (map fst (tags (cfg ?w1))) K \<le> 1" using c1 by simp
    have "\<forall>x \<in> set (standard_tags e). distinct (map fst (snd x))"
      using standard_tags_ok [of e] unfolding table_ok_def by (rule conjunct1)
    then have "distinct (map fst (snd (K, d)))" using Cons.prems(3) by (rule bspec)
    then have dd: "distinct (map fst d)" by simp
    have i: "dict_update ?A d = ?A"
      using dd by (intro dict_update_id ballI) (rule map_of_dict_update)
    have "count_list (map fst (tags (cfg (setup_runs es ?w1)))) K = 1 \<and>
         map_of (tags (cfg (setup_runs es ?w1))) K =
           Some (dict_update (case map_of (tags (cfg ?w1)) K of None \<Rightarrow> [] | Some a \<Rightarrow> a) d)"
      by (rule Cons.IH [OF a l1 Cons.prems(3) b False])
    then show ?thesis unfolding m1 by (simp add: i)
  qed
qed

text \<open>
  C6, as the code has it. With the tag operations of the store, in one or more runs
  that lockdown does not stop, with the same statuses, and whose migrations and mailbox
  initialiser leave tags and lockdown alone: for every key \<open>K\<close> of the taxonomy (the
  nineteen keys of \<^verbatim>\<open>Setup.TAGS\<close>, \<^verbatim>\<open>mp_sig-\<close> followed by a signature status, \<^verbatim>\<open>mp_enc-\<close>
  followed by an encryption status), if the store held at most one tag under \<open>K\<close> before,
  then after the runs it holds exactly one, and the attributes of that tag are the
  attributes \<open>before\<close> it had at the start (none when the tag was not there) updated with
  the canonical dict \<open>d\<close> of the key: every attribute \<open>d\<close> names has the value \<open>d\<close> gives,
  every attribute \<open>d\<close> does not name is as it was, and a tag the runs created has the
  attributes of \<open>d\<close> and no other.
\<close>

theorem standard_tags_are_unique_and_updated:
  assumes "es \<noteq> []"
    and "\<forall>e' \<in> set es. tag_ops e' = store_api \<and> hooks_keep tags e' \<and> hooks_keep lockdown e' \<and>
           sig_STATUSES e' = sig_STATUSES e \<and> enc_STATUSES e' = enc_STATUSES e"
    and "\<not> lockdown (cfg w)"
    and "K \<in> set [''New'', ''Inbox'', ''Blank'', ''Drafts'', ''Outbox'', ''Sent'', ''Spam'',
                   ''MaybeSpam'', ''Ham'', ''Trash'', ''All Mail'', ''Photos'', ''Files'', ''Links'',
                   ''mp_rpl'', ''mp_fwd'', ''mp_tag'', ''mp_read'', ''mp_ham''] \<or>
         (\<exists>status \<in> set (sig_STATUSES (e :: env)). K = ''mp_sig-'' @ status) \<or>
         (\<exists>status \<in> set (enc_STATUSES e). K = ''mp_enc-'' @ status)"
    and "count_list (map fst (tags (cfg w))) K \<le> 1"
    and "before = (case map_of (tags (cfg w)) K of None \<Rightarrow> [] | Some a \<Rightarrow> a)"
  shows "count_list (map fst (tags (cfg (setup_runs es w)))) K = 1 \<and>
         (\<exists>d. canonical K = Some d \<and>
              map_of (tags (cfg (setup_runs es w))) K = Some (dict_update before d) \<and>
              (\<forall>xv \<in> set d. map_of (dict_update before d) (fst xv) = Some (snd xv)) \<and>
              (\<forall>x. x \<notin> fst ` set d \<longrightarrow> map_of (dict_update before d) x = map_of before x) \<and>
              (before = [] \<longrightarrow> dict_update before d = d))"
proof -
  have "K \<in> set (map fst TAGS) \<or> (\<exists>status \<in> set (sig_STATUSES e). K = ''mp_sig-'' @ status) \<or>
     (\<exists>status \<in> set (enc_STATUSES e). K = ''mp_enc-'' @ status)"
    using assms(4) unfolding TAGS_key_list .
  then obtain d where cd: "canonical K = Some d" and m: "(K, d) \<in> set (standard_tags e)"
    using canonical_standard by blast
  have r: "count_list (map fst (tags (cfg (setup_runs es w)))) K = 1 \<and>
         map_of (tags (cfg (setup_runs es w))) K = Some (dict_update before d)"
    unfolding assms(6) by (rule setup_runs_update_tags [OF assms(2,3) m assms(5,1)])
  have "\<forall>x \<in> set (standard_tags e). distinct (map fst (snd x))"
    using standard_tags_ok [of e] unfolding table_ok_def by (rule conjunct1)
  then have "distinct (map fst (snd (K, d)))" using m by (rule bspec)
  then have dd: "distinct (map fst d)" by simp
  have n: "\<forall>xv \<in> set d. map_of (dict_update before d) (fst xv) = Some (snd xv)"
    using dd by (intro ballI) (rule map_of_dict_update)
  have o: "\<forall>x. x \<notin> fst ` set d \<longrightarrow> map_of (dict_update before d) x = map_of before x"
    by (simp add: map_of_dict_update_other)
  have z: "before = [] \<longrightarrow> dict_update before d = d" using dd by (simp add: dict_update_Nil)
  show ?thesis using r cd n o z by blast
qed

theorem standard_tags_are_unique_and_updated_witness:
  "tag_ops home_env = store_api \<and> hooks_keep tags home_env \<and> hooks_keep lockdown home_env \<and>
   tag_ops later_env = store_api \<and> hooks_keep tags later_env \<and> hooks_keep lockdown later_env \<and>
   sig_STATUSES later_env = sig_STATUSES home_env \<and> enc_STATUSES later_env = enc_STATUSES home_env \<and>
   \<not> lockdown (cfg fresh_world) \<and> ''none'' \<in> set (sig_STATUSES home_env) \<and>
   count_list (map fst (tags (cfg fresh_world))) ''mp_sig-none'' \<le> 1 \<and>
   count_list (map fst (tags (cfg (setup_runs [home_env, later_env] fresh_world)))) ''mp_sig-none'' = 1 \<and>
   map_of (tags (cfg (setup_runs [home_env, later_env] fresh_world))) ''mp_sig-none'' =
     Some [(''type'', Str ''attribute''), (''display'', Str ''invisible''), (''label'', Bool False)] \<and>
   count_list (map fst (tags (cfg fresh_world))) ''Inbox'' \<le> 1 \<and>
   count_list (map fst (tags (cfg (setup_runs [home_env] fresh_world)))) ''Inbox'' = 1 \<and>
   map_of (tags (cfg (setup_runs [home_env] fresh_world))) ''Inbox'' =
     Some [(''type'', Str ''inbox''), (''display'', Str ''priority''), (''display_order'', Num 2),
           (''icon'', Str ''icon-inbox''), (''label_color'', Str ''06-blue''),
           (''name'', Str ''Inbox'')] \<and>
   \<not> lockdown (cfg ham_world) \<and>
   count_list (map fst (tags (cfg ham_world))) ''Ham'' \<le> 1 \<and>
   count_list (map fst (tags (cfg (setup_runs [home_env, later_env] ham_world)))) ''Ham'' = 1 \<and>
   map_of (tags (cfg (setup_runs [home_env, later_env] ham_world))) ''Ham'' =
     Some [(''icon'', Str ''icon-ham''), (''type'', Str ''ham''), (''display'', Str ''invisible''),
           (''name'', Str ''Ham'')]"
proof -
  have h: "tag_ops home_env = store_api \<and> hooks_keep tags home_env \<and> hooks_keep lockdown home_env \<and>
      tag_ops later_env = store_api \<and> hooks_keep tags later_env \<and> hooks_keep lockdown later_env \<and>
      sig_STATUSES later_env = sig_STATUSES home_env \<and>
      enc_STATUSES later_env = enc_STATUSES home_env \<and>
      \<not> lockdown (cfg fresh_world) \<and> ''none'' \<in> set (sig_STATUSES home_env) \<and>
      count_list (map fst (tags (cfg fresh_world))) ''mp_sig-none'' \<le> 1 \<and>
      count_list (map fst (tags (cfg fresh_world))) ''Inbox'' \<le> 1 \<and>
      \<not> lockdown (cfg ham_world) \<and> count_list (map fst (tags (cfg ham_world))) ''Ham'' \<le> 1"
    by (simp add: ex_defs later_env_def ham_world_def on_cfg_def hooks_keep_def)
  have c1: "canonical ''mp_sig-none'' =
      Some [(''type'', Str ''attribute''), (''display'', Str ''invisible''), (''label'', Bool False)]"
    by code_simp
  have c2: "canonical ''Ham'' =
      Some [(''type'', Str ''ham''), (''display'', Str ''invisible''), (''name'', Str ''Ham'')]"
    by code_simp
  have b1: "(case map_of (tags (cfg fresh_world)) ''mp_sig-none'' of None \<Rightarrow> [] | Some a \<Rightarrow> a) = []"
    by (simp add: ex_defs)
  have b2: "(case map_of (tags (cfg ham_world)) ''Ham'' of None \<Rightarrow> [] | Some a \<Rightarrow> a) =
      [(''icon'', Str ''icon-ham'')]"
    by (simp add: ex_defs ham_world_def on_cfg_def)
  have u: "dict_update [(''icon'', Str ''icon-ham'')]
        [(''type'', Str ''ham''), (''display'', Str ''invisible''), (''name'', Str ''Ham'')] =
      [(''icon'', Str ''icon-ham''), (''type'', Str ''ham''), (''display'', Str ''invisible''),
       (''name'', Str ''Ham'')]"
    by (simp add: dict_update_def)
  have r1: "count_list (map fst (tags (cfg (setup_runs [home_env, later_env] fresh_world)))) ''mp_sig-none'' = 1 \<and>
   map_of (tags (cfg (setup_runs [home_env, later_env] fresh_world))) ''mp_sig-none'' =
     Some [(''type'', Str ''attribute''), (''display'', Str ''invisible''), (''label'', Bool False)]"
    using standard_tags_are_unique_and_updated
      [of "[home_env, later_env]" home_env fresh_world "''mp_sig-none''" "[]"] h c1 b1
    by auto
  have r2: "count_list (map fst (tags (cfg (setup_runs [home_env, later_env] ham_world)))) ''Ham'' = 1 \<and>
   map_of (tags (cfg (setup_runs [home_env, later_env] ham_world))) ''Ham'' =
     Some [(''icon'', Str ''icon-ham''), (''type'', Str ''ham''), (''display'', Str ''invisible''),
           (''name'', Str ''Ham'')]"
    using standard_tags_are_unique_and_updated
      [of "[home_env, later_env]" home_env ham_world "''Ham''" "[(''icon'', Str ''icon-ham'')]"]
      h c2 b2 u
    by auto
  have c3: "canonical ''Inbox'' =
      Some [(''type'', Str ''inbox''), (''display'', Str ''priority''), (''display_order'', Num 2),
            (''icon'', Str ''icon-inbox''), (''label_color'', Str ''06-blue''),
            (''name'', Str ''Inbox'')]"
    by code_simp
  have b3: "(case map_of (tags (cfg fresh_world)) ''Inbox'' of None \<Rightarrow> [] | Some a \<Rightarrow> a) = []"
    by (simp add: ex_defs)
  have r3: "count_list (map fst (tags (cfg (setup_runs [home_env] fresh_world)))) ''Inbox'' = 1 \<and>
   map_of (tags (cfg (setup_runs [home_env] fresh_world))) ''Inbox'' =
     Some [(''type'', Str ''inbox''), (''display'', Str ''priority''), (''display_order'', Num 2),
           (''icon'', Str ''icon-inbox''), (''label_color'', Str ''06-blue''),
           (''name'', Str ''Inbox'')]"
    using standard_tags_are_unique_and_updated
      [of "[home_env]" home_env fresh_world "''Inbox''" "[]"] h c3 b3
    by auto
  show ?thesis using h r1 r2 r3 by blast
qed

text \<open>
  C6 as stated asks for the attributes of the tag to equal the canonical definition,
  after any number of runs. The update is a dict update, which keeps what the canonical
  dict does not name: a tag \<^verbatim>\<open>Ham\<close> that had an icon keeps it after a run, and the
  canonical dict of \<^verbatim>\<open>Ham\<close> has none. And a run in lockdown creates no tag at all.
\<close>

theorem tag_attributes_counterexample:
  "map_of (tags (cfg (final_world snd (command home_env ham_world)))) ''Ham'' =
     Some [(''icon'', Str ''icon-ham''), (''type'', Str ''ham''), (''display'', Str ''invisible''),
           (''name'', Str ''Ham'')] \<and>
   canonical ''Ham'' =
     Some [(''type'', Str ''ham''), (''display'', Str ''invisible''), (''name'', Str ''Ham'')] \<and>
   map_of (tags (cfg (final_world snd (command home_env ham_world)))) ''Ham'' \<noteq> canonical ''Ham'' \<and>
   count_list (map fst (tags (cfg ham_world))) ''Ham'' = 1 \<and>
   lockdown (cfg locked_world) \<and>
   map_of (tags (cfg (final_world snd (command home_env locked_world)))) ''New'' = None"
  by code_simp

subsection \<open>Running the command again\<close>

lemma only_events_refl: "only_events w w"
  by (simp add: only_events_def)

lemma only_events_trans: "only_events w1 w2 \<Longrightarrow> only_events w2 w3 \<Longrightarrow> only_events w1 w3"
  by (auto simp: only_events_def)

lemma only_events_eq:
  "only_events w w' \<Longrightarrow> \<exists>evs. w' = w\<lparr>events := events w @ evs\<rparr>"
  by (auto simp: only_events_def intro!: world.equality)

lemma uid_step_known:
  "usable_emails [u] \<subseteq> set (profile_emails (cfg w)) \<Longrightarrow> uid_step u w = Inr w"
  by (auto simp: uid_step_def usable_emails_def split: option.splits)

lemma uids_loop_known:
  "usable_emails us \<subseteq> set (profile_emails (cfg w)) \<Longrightarrow> uids_loop us w = Inr w"
proof (induction us)
  case Nil
  then show ?case by simp
next
  case (Cons u us)
  have "usable_emails [u] \<subseteq> set (profile_emails (cfg w))"
      "usable_emails us \<subseteq> set (profile_emails (cfg w))"
    using Cons.prems usable_emails_simps(2) [of u us] by auto
  then show ?case using Cons.IH by (simp add: uid_step_known)
qed

lemma uids_loop_registers:
  assumes "uids_loop us w = Inr w'"
  shows "usable_emails us \<subseteq> set (profile_emails (cfg w'))"
proof (cases "names_present (set (profile_emails (cfg w))) us")
  case True
  then show ?thesis using uids_loop_names [of w us] assms by auto
next
  case False
  then show ?thesis using uids_loop_names [of w us] assms by auto
qed

lemma adopt_key_policy: "crypto_policy (cfg (adopt_key key b w)) \<noteq> ''none''"
  by (simp add: adopt_key_def Let_def on_cfg_def notify_def)

lemma key_step_quiet_after:
  assumes "key_step tod kd (w, acc) = Inr (w1, acc1)"
  shows "quiet_key tod (cfg w1) kd"
proof (cases "revoked tod (snd kd)")
  case True
  then show ?thesis by (simp add: quiet_key_def)
next
  case False
  obtain key d where kd: "kd = (key, d)" by (cases kd)
  from assms kd False obtain us w' b where
    us: "uids d = Some us" and lp: "uids_loop us w = Inr w'" and
    wr: "wants_recipient d w' = Inr b" and w1: "w1 = adopt_key key b w'"
    by (auto simp: key_step_def split: option.splits sum.splits)
  have p: "usable_emails us \<subseteq> set (profile_emails (cfg w1))"
    using uids_loop_registers [OF lp] w1 by (simp add: profile_emails_def adopt_key_profiles)
  have c: "crypto_policy (cfg w1) \<noteq> ''none''" using w1 by (simp add: adopt_key_policy)
  have r: "gpg_recipient (cfg w1) \<noteq> [] \<or>
      (\<exists>caps b. capabilities d = Some caps \<and> map_of caps ''encrypt'' = Some b \<and> (b \<longrightarrow> key = []))"
    using wr w1 by (auto simp: wants_recipient_def adopt_key_recipient split: if_splits option.splits)
  show ?thesis using kd us p c r by (simp add: quiet_key_def)
qed

lemma quiet_key_mono:
  assumes "quiet_key tod (cfg w) kd" and "discovered U w w'"
  shows "quiet_key tod (cfg w') kd"
proof -
  from assms(2) obtain new where
    n: "profiles (cfg w') = profiles (cfg w) @ new"
    and r: "gpg_recipient (cfg w) \<noteq> [] \<longrightarrow> gpg_recipient (cfg w') = gpg_recipient (cfg w)"
    and c: "crypto_policy (cfg w) \<noteq> ''none'' \<longrightarrow> crypto_policy (cfg w') = crypto_policy (cfg w)"
    unfolding discovered_def by blast
  have s: "set (profile_emails (cfg w)) \<subseteq> set (profile_emails (cfg w'))"
    using n by (simp add: profile_emails_def)
  show ?thesis using assms(1) r c s unfolding quiet_key_def by (metis subset_trans)
qed

lemma keys_loop_quiet_after:
  "keys_loop tod keys (w, acc) = Inr (w', acc') \<Longrightarrow> \<forall>kd \<in> set keys. quiet_key tod (cfg w') kd"
proof (induction keys arbitrary: w acc)
  case Nil
  then show ?case by simp
next
  case (Cons kd keys)
  from Cons.prems obtain w1 acc1 where
    st: "key_step tod kd (w, acc) = Inr (w1, acc1)" and
    lp: "keys_loop tod keys (w1, acc1) = Inr (w', acc')"
    by (auto split: sum.splits)
  have "discovered (set (accepted_uids tod keys)) w1 (final_world fst (keys_loop tod keys (w1, acc1)))"
    by (rule discovered_keys_loop) simp
  then have "discovered (set (accepted_uids tod keys)) w1 w'" using lp by (simp add: final_world_def)
  then have "quiet_key tod (cfg w') kd"
    using key_step_quiet_after [OF st] quiet_key_mono by blast
  then show ?case using Cons.IH [OF lp] by simp
qed

lemma adopt_key_quiet:
  assumes "crypto_policy (cfg w) \<noteq> ''none''" and "b \<longrightarrow> key = [] \<and> gpg_recipient (cfg w) = []"
  shows "only_events w (adopt_key key b w)"
proof (cases b)
  case False
  then show ?thesis using assms(1) by (simp add: adopt_key_def only_events_refl)
next
  case True
  then have "(cfg w)\<lparr>gpg_recipient := key\<rparr> = cfg w" using assms(2) by (cases "cfg w") simp
  then show ?thesis using True assms(1)
    by (simp add: adopt_key_def Let_def on_cfg_def notify_def only_events_def)
qed

lemma key_step_quiet:
  assumes "quiet_key tod (cfg w) kd"
  shows "\<exists>w' acc'. key_step tod kd (w, acc) = Inr (w', acc') \<and> only_events w w'"
proof (cases "revoked tod (snd kd)")
  case True
  then show ?thesis by (cases kd) (simp add: key_step_def only_events_refl)
next
  case False
  obtain key d where kd: "kd = (key, d)" by (cases kd)
  from assms False kd obtain us where
    us: "uids d = Some us" "usable_emails us \<subseteq> set (profile_emails (cfg w))" and
    c: "crypto_policy (cfg w) \<noteq> ''none''" and
    r: "gpg_recipient (cfg w) \<noteq> [] \<or>
      (\<exists>caps b. capabilities d = Some caps \<and> map_of caps ''encrypt'' = Some b \<and> (b \<longrightarrow> key = []))"
    by (auto simp: quiet_key_def)
  have lp: "uids_loop us w = Inr w" using us(2) by (rule uids_loop_known)
  have "\<exists>b. wants_recipient d w = Inr b \<and> (b \<longrightarrow> key = [] \<and> gpg_recipient (cfg w) = [])"
  proof (cases "gpg_recipient (cfg w) = []")
    case True
    then obtain caps b where "capabilities d = Some caps" "map_of caps ''encrypt'' = Some b"
        "b \<longrightarrow> key = []"
      using r by blast
    then show ?thesis using True by (simp add: wants_recipient_def)
  next
    case False
    then have "wants_recipient d w = Inr False" by (simp add: wants_recipient_def)
    then show ?thesis by blast
  qed
  then obtain b where wr: "wants_recipient d w = Inr b" and
    b: "b \<longrightarrow> key = [] \<and> gpg_recipient (cfg w) = []"
    by blast
  have "only_events w (adopt_key key b w)" using c b by (rule adopt_key_quiet)
  then show ?thesis using kd False us(1) lp wr by (simp add: key_step_def)
qed

lemma quiet_key_cfg: "cfg w' = cfg w \<Longrightarrow> quiet_key tod (cfg w') kd = quiet_key tod (cfg w) kd"
  by simp

lemma keys_loop_quiet:
  "\<forall>kd \<in> set keys. quiet_key tod (cfg w) kd \<Longrightarrow>
     \<exists>w' acc'. keys_loop tod keys (w, acc) = Inr (w', acc') \<and> only_events w w'"
proof (induction keys arbitrary: w acc)
  case Nil
  then show ?case by (simp add: only_events_refl)
next
  case (Cons kd keys)
  obtain w1 acc1 where st: "key_step tod kd (w, acc) = Inr (w1, acc1)" and o1: "only_events w w1"
    using key_step_quiet [of tod w kd acc] Cons.prems by auto
  have "cfg w1 = cfg w" using o1 by (simp add: only_events_def)
  then have "\<forall>kd \<in> set keys. quiet_key tod (cfg w1) kd" using Cons.prems by simp
  then obtain w' acc' where lp: "keys_loop tod keys (w1, acc1) = Inr (w', acc')"
    and o2: "only_events w1 w'"
    using Cons.IH [of w1 acc1] by blast
  have "only_events w w'" using o1 o2 by (rule only_events_trans)
  then show ?case using st lp by simp
qed

text \<open>What each stage leaves alone.\<close>

lemma import_plugins_keeps:
  "tags (cfg (import_plugins e w)) = tags (cfg w)"
  by (simp add: import_plugins_def Let_def save_def load_def on_cfg_def notify_def warning_def)

lemma setup_importers_keeps:
  "tags (cfg (setup_importers e w)) = tags (cfg w) \<and>
   plugins (cfg (setup_importers e w)) = plugins (cfg w)"
  by (simp add: setup_importers_def Let_def on_cfg_def notify_def)

lemma obfuscate_keeps:
  "tags (cfg (obfuscate e w)) = tags (cfg w) \<and>
   plugins (cfg (obfuscate e w)) = plugins (cfg w) \<and>
   gravatar (cfg (obfuscate e w)) = gravatar (cfg w) \<and>
   gpg (cfg (obfuscate e w)) = gpg (cfg w) \<and>
   autotag (cfg (obfuscate e w)) = autotag (cfg w) \<and>
   profiles (cfg (obfuscate e w)) = profiles (cfg w) \<and>
   gpg_recipient (cfg (obfuscate e w)) = gpg_recipient (cfg w) \<and>
   crypto_policy (cfg (obfuscate e w)) = crypto_policy (cfg w)"
  by (simp add: obfuscate_def on_cfg_def notify_def)

lemma discover_keys_keeps:
  assumes "discover_keys e w = Inr w'"
  shows "tags (cfg w') = tags (cfg w) \<and> plugins (cfg w') = plugins (cfg w) \<and>
         gravatar (cfg w') = gravatar (cfg w) \<and> gpg (cfg w') = gpg (cfg w) \<and>
         autotag (cfg w') = autotag (cfg w)"
proof -
  have f: "final_world (\<lambda>w. w) (discover_keys e w) = w'" using assms by (simp add: final_world_def)
  have c: "cfg w' = (cfg w)\<lparr>profiles := profiles (cfg w'), gpg_recipient := gpg_recipient (cfg w'),
              crypto_policy := crypto_policy (cfg w')\<rparr>"
    using discover_keys_cfg [of e w] unfolding f .
  show ?thesis by (subst c, simp)+
qed

text \<open>What each stage establishes.\<close>

lemma append_missing_id: "set xs \<subseteq> set ps \<Longrightarrow> append_missing xs ps = ps"
  by (induction xs) auto

lemma import_plugins_settles: "settled_plugins e (cfg (import_plugins e w))"
  by (auto simp: settled_plugins_def import_plugins_def Let_def save_def load_def on_cfg_def
        notify_def warning_def append_missing_set)

lemma setup_importers_settles: "settled_importers e (cfg (setup_importers e w))"
  by (simp add: settled_importers_def setup_importers_def Let_def on_cfg_def notify_def)

lemma discover_keys_settles:
  assumes "discover_keys e w = Inr w'"
  shows "settled_keys e (cfg w')"
proof (cases "gnupg_available e")
  case True
  then obtain acc where "keys_loop (today e) (secret_keys e) (w, []) = Inr (w', acc)"
    using assms by (auto simp: discover_keys_def split: sum.splits)
  then show ?thesis using keys_loop_quiet_after by (simp add: settled_keys_def)
next
  case False
  then show ?thesis by (simp add: settled_keys_def)
qed

lemma obfuscate_settles: "settled_index e (cfg (obfuscate e w))"
  by (simp add: settled_index_def obfuscate_def on_cfg_def notify_def randcrap_nonempty)

text \<open>What each stage does to a settled configuration.\<close>

lemma create_tags_settled:
  assumes "tag_ops e = store_api" and "settled_tags e (cfg w)"
  shows "create_tags e w = Inr w"
proof -
  have "tags_loop store_api (standard_tags e) (w, []) = Inr (w, [])"
    using assms(2) standard_tags_keys unfolding settled_tags_def
    by (rule_tac tags_loop_settled) blast
  then show ?thesis using assms(1) by (simp add: create_tags_def)
qed

lemma import_plugins_settled:
  assumes "settled_plugins e (cfg w)" and "disk w = cfg w"
  shows "only_events w (import_plugins e w)"
proof -
  have a: "append_missing (PLUGINS e) (plugins (cfg w)) = plugins (cfg w)"
    using assms(1) by (simp add: settled_plugins_def append_missing_id)
  have b: "autotag_sb_importable e \<longrightarrow> ''autotag_sb'' \<in> set (plugins (cfg w))"
    using assms(1) by (simp add: settled_plugins_def)
  have c: "(cfg w)\<lparr>plugins := plugins (cfg w)\<rparr> = cfg w" by simp
  show ?thesis using a b assms(2)
    by (simp add: import_plugins_def Let_def save_def load_def on_cfg_def notify_def warning_def
          only_events_def)
qed

lemma setup_importers_settled:
  "settled_importers e (cfg w) \<Longrightarrow> setup_importers e w = w"
  by (auto simp: settled_importers_def setup_importers_def Let_def)

lemma discover_keys_settled:
  assumes "settled_keys e (cfg w)"
  shows "\<exists>w'. discover_keys e w = Inr w' \<and> only_events w w'"
proof (cases "gnupg_available e")
  case True
  then have "\<forall>kd \<in> set (secret_keys e). quiet_key (today e) (cfg w) kd"
    using assms by (simp add: settled_keys_def)
  then obtain w' acc' where "keys_loop (today e) (secret_keys e) (w, []) = Inr (w', acc')"
      "only_events w w'"
    using keys_loop_quiet [of "secret_keys e" "today e" w "[]"] by blast
  then show ?thesis using True by (simp add: discover_keys_def)
next
  case False
  then show ?thesis by (simp add: discover_keys_def warning_def only_events_def)
qed

lemma obfuscate_settled: "settled_index e (cfg w) \<Longrightarrow> obfuscate e w = w"
  by (auto simp: settled_index_def obfuscate_def)

lemma settled_tags_cong: "settled_tags e c \<Longrightarrow> tags c' = tags c \<Longrightarrow> settled_tags e c'"
  by (simp add: settled_tags_def)

lemma settled_plugins_cong:
  "settled_plugins e c \<Longrightarrow> plugins c' = plugins c \<Longrightarrow> settled_plugins e c'"
  by (simp add: settled_plugins_def)

lemma settled_importers_cong:
  "settled_importers e c \<Longrightarrow> plugins c' = plugins c \<Longrightarrow> gravatar c' = gravatar c \<Longrightarrow>
     gpg c' = gpg c \<Longrightarrow> autotag c' = autotag c \<Longrightarrow> settled_importers e c'"
  by (simp add: settled_importers_def)

lemma settled_keys_cong:
  "settled_keys e c \<Longrightarrow> profiles c' = profiles c \<Longrightarrow> gpg_recipient c' = gpg_recipient c \<Longrightarrow>
     crypto_policy c' = crypto_policy c \<Longrightarrow> settled_keys e c'"
  by (simp add: settled_keys_def quiet_key_def profile_emails_def)

lemma settled_entropy: "settled (e\<lparr>urandom := u, time_time := t\<rparr>) c = settled e c"
  by (simp add: settled_def settled_tags_def settled_plugins_def settled_importers_def
        settled_keys_def settled_index_def standard_tags_def attribute_tags_def)

lemma on_cfg_id: "f (cfg w) = cfg w \<Longrightarrow> on_cfg f w = w"
  by (simp add: on_cfg_def)

lemma first_run_settles:
  assumes api: "tag_ops e = store_api"
    and after: "\<forall>c. migrate e False True c = c"
    and nl: "\<not> lockdown (cfg w)"
    and run: "command e w = Inr (r, w1)"
  shows "settled e (cfg w1) \<and> disk w1 = cfg w1"
proof -
  let ?w2 = "on_cfg (open_local_mailbox e) (on_cfg (migrate e True False) w)"
  from run nl obtain w3 w6 where
    t: "create_tags e ?w2 = Inr w3" and
    d: "discover_keys e (setup_importers e (import_plugins e w3)) = Inr w6" and
    w1: "w1 = save (on_cfg (migrate e False True) (obfuscate e w6))"
    by (auto simp: command_unfold split: sum.splits)
  let ?w4 = "import_plugins e w3"
  let ?w5 = "setup_importers e ?w4"
  let ?w7 = "obfuscate e w6"
  have c1: "cfg w1 = cfg ?w7" and d1: "disk w1 = cfg w1"
    using w1 after by (simp_all add: save_def on_cfg_def)
  have "tags (cfg w3) = fold ensure_tag (standard_tags e) (tags (cfg ?w2))"
    using create_tags_store [OF api, of ?w2] t by auto
  then have t3: "settled_tags e (cfg w3)"
    using standard_tags_ok fold_ensure_tag_settles by (simp add: settled_tags_def)
  have t4: "settled_tags e (cfg ?w4)"
    using t3 import_plugins_keeps by (rule settled_tags_cong)
  have p4: "settled_plugins e (cfg ?w4)" by (rule import_plugins_settles)
  have t5: "settled_tags e (cfg ?w5)"
    using t4 setup_importers_keeps [THEN conjunct1] by (rule settled_tags_cong)
  have p5: "settled_plugins e (cfg ?w5)"
    using p4 setup_importers_keeps [THEN conjunct2] by (rule settled_plugins_cong)
  have i5: "settled_importers e (cfg ?w5)" by (rule setup_importers_settles)
  note k6' = discover_keys_keeps [OF d]
  have t6: "settled_tags e (cfg w6)" using t5 k6' by (simp add: settled_tags_cong)
  have p6: "settled_plugins e (cfg w6)" using p5 k6' by (simp add: settled_plugins_cong)
  have i6: "settled_importers e (cfg w6)" using i5 k6' by (simp add: settled_importers_cong)
  have k6: "settled_keys e (cfg w6)" using d by (rule discover_keys_settles)
  note o = obfuscate_keeps [of e w6]
  have t7: "settled_tags e (cfg ?w7)" using t6 o by (simp add: settled_tags_cong)
  have p7: "settled_plugins e (cfg ?w7)" using p6 o by (simp add: settled_plugins_cong)
  have i7: "settled_importers e (cfg ?w7)" using i6 o by (simp add: settled_importers_cong)
  have k7: "settled_keys e (cfg ?w7)" using k6 o by (simp add: settled_keys_cong)
  have o7: "settled_index e (cfg ?w7)" by (rule obfuscate_settles)
  show ?thesis using t7 p7 i7 k7 o7 c1 d1 by (simp add: settled_def)
qed

lemma settled_run:
  assumes api: "tag_ops e = store_api"
    and st: "settled e (cfg w)"
    and dk: "disk w = cfg w"
    and nl: "\<not> lockdown (cfg w)"
    and h1: "migrate e True False (cfg w) = cfg w"
    and h2: "open_local_mailbox e (cfg w) = cfg w"
    and h3: "migrate e False True (cfg w) = cfg w"
  shows "\<exists>evs. command e w =
           Inr (Success ''Performed initial Mailpile setup'', w\<lparr>events := events w @ evs\<rparr>)"
proof -
  have s: "settled_tags e (cfg w)" "settled_plugins e (cfg w)" "settled_importers e (cfg w)"
      "settled_keys e (cfg w)" "settled_index e (cfg w)"
    using st by (simp_all add: settled_def)
  have w2: "on_cfg (open_local_mailbox e) (on_cfg (migrate e True False) w) = w"
    using h1 h2 by (simp add: on_cfg_id)
  have t: "create_tags e w = Inr w" using api s(1) by (rule create_tags_settled)
  let ?w4 = "import_plugins e w"
  have o4: "only_events w ?w4" using s(2) dk by (rule import_plugins_settled)
  then have c4: "cfg ?w4 = cfg w" by (simp add: only_events_def)
  have "settled_importers e (cfg ?w4)" using s(3) c4 by simp
  then have w5: "setup_importers e ?w4 = ?w4" by (rule setup_importers_settled)
  have "settled_keys e (cfg ?w4)" using s(4) c4 by simp
  then obtain w6 where d: "discover_keys e ?w4 = Inr w6" and o6: "only_events ?w4 w6"
    using discover_keys_settled by blast
  have ow6: "only_events w w6" using o4 o6 by (rule only_events_trans)
  then have c6: "cfg w6 = cfg w" "disk w6 = disk w" by (simp_all add: only_events_def)
  have "settled_index e (cfg w6)" using s(5) c6 by simp
  then have w7: "obfuscate e w6 = w6" by (rule obfuscate_settled)
  have w8: "on_cfg (migrate e False True) w6 = w6" using h3 c6 by (simp add: on_cfg_id)
  have "only_events w6 (save w6)" using c6 dk by (simp add: only_events_def save_def)
  with ow6 have "only_events w (save w6)" by (rule only_events_trans)
  then obtain evs where sv: "save w6 = w\<lparr>events := events w @ evs\<rparr>"
    using only_events_eq by blast
  have "command e w = Inr (Success ''Performed initial Mailpile setup'', save w6)"
    using nl w2 t w5 d w7 w8 by (simp add: command_unfold)
  then have "command e w =
      Inr (Success ''Performed initial Mailpile setup'', w\<lparr>events := events w @ evs\<rparr>)"
    by (simp only: sv)
  then show ?thesis by (rule exI)
qed

text \<open>
  C1. Take a run that returned, with the tag operations of the store and a post-setup
  migration that changes nothing. Run the command again in the world the first run
  left, in the same environment (the random bytes and the time may differ),
  with the pre-setup migration and the mailbox initialiser finding nothing to change in
  that world. The second run returns, and its world is the world after the first run
  with more events: the configuration in memory (tags, profiles, plugins, importers,
  autotag rules, recipient, policy, salt, encrypted flag) and the saved configuration
  are the same.
\<close>

theorem setup_is_idempotent:
  assumes "tag_ops e = store_api"
    and "\<forall>c. migrate e False True c = c"
    and "command e w = Inr (r, w1)"
    and "migrate e True False (cfg w1) = cfg w1"
    and "open_local_mailbox e (cfg w1) = cfg w1"
  shows "\<exists>r2 evs. command (e\<lparr>urandom := u, time_time := t\<rparr>) w1 =
           Inr (r2, w1\<lparr>events := events w1 @ evs\<rparr>)"
proof (cases "lockdown (cfg w1)")
  case True
  then have "command (e\<lparr>urandom := u, time_time := t\<rparr>) w1 =
      Inr (Error ''In lockdown, doing nothing.'', w1\<lparr>events := events w1 @ []\<rparr>)"
    by (simp add: command_def)
  then show ?thesis by blast
next
  case False
  have nl: "\<not> lockdown (cfg w)"
  proof
    assume "lockdown (cfg w)"
    then have "w1 = w" using assms(3) by (simp add: command_def)
    then show False using False \<open>lockdown (cfg w)\<close> by simp
  qed
  have s: "settled e (cfg w1)" and dk: "disk w1 = cfg w1"
    using first_run_settles [OF assms(1,2) nl assms(3)] by simp_all
  let ?e = "e\<lparr>urandom := u, time_time := t\<rparr>"
  have "\<exists>evs. command ?e w1 =
           Inr (Success ''Performed initial Mailpile setup'', w1\<lparr>events := events w1 @ evs\<rparr>)"
  proof (rule settled_run)
    show "tag_ops ?e = store_api" using assms(1) by simp
    show "settled ?e (cfg w1)" using s by (simp only: settled_entropy)
    show "disk w1 = cfg w1" by (rule dk)
    show "\<not> lockdown (cfg w1)" by (rule False)
    show "migrate ?e True False (cfg w1) = cfg w1" using assms(4) by simp
    show "open_local_mailbox ?e (cfg w1) = cfg w1" using assms(5) by simp
    show "migrate ?e False True (cfg w1) = cfg w1" using assms(2) by simp
  qed
  then show ?thesis by blast
qed

theorem setup_is_idempotent_witness:
  "tag_ops home_env = store_api \<and> (\<forall>c. migrate home_env False True c = c) \<and>
   command home_env fresh_world = Inr (Success ''Performed initial Mailpile setup'', settled_world) \<and>
   migrate home_env True False (cfg settled_world) = cfg settled_world \<and>
   open_local_mailbox home_env (cfg settled_world) = cfg settled_world \<and>
   (\<exists>r2 evs. command (home_env\<lparr>urandom := ''wxyz'', time_time := ''1393632060.5''\<rparr>) settled_world =
      Inr (r2, settled_world\<lparr>events := events settled_world @ evs\<rparr>)) \<and>
   command (home_env\<lparr>urandom := ''wxyz'', time_time := ''1393632060.5''\<rparr>) settled_world =
     Inr (Success ''Performed initial Mailpile setup'',
          settled_world\<lparr>events := events settled_world @
            [Warning ''Please install spambayes for super awesome spam filtering'',
             Save, Load, Save]\<rparr>)"
proof -
  have h1: "tag_ops home_env = store_api" by (simp add: home_env_def)
  have h2: "\<forall>c. migrate home_env False True c = c" by (simp add: home_env_def)
  have h5: "migrate home_env True False (cfg settled_world) = cfg settled_world"
    by (simp add: home_env_def)
  have h6: "open_local_mailbox home_env (cfg settled_world) = cfg settled_world"
    by (simp add: home_env_def)
  have a: "\<exists>r2 evs. command (home_env\<lparr>urandom := ''wxyz'', time_time := ''1393632060.5''\<rparr>) settled_world =
      Inr (r2, settled_world\<lparr>events := events settled_world @ evs\<rparr>)"
    using setup_is_idempotent [OF h1 h2 run_home h5 h6] .
  have b: "command (home_env\<lparr>urandom := ''wxyz'', time_time := ''1393632060.5''\<rparr>) settled_world =
     Inr (Success ''Performed initial Mailpile setup'',
          settled_world\<lparr>events := events settled_world @
            [Warning ''Please install spambayes for super awesome spam filtering'',
             Save, Load, Save]\<rparr>)"
    by code_simp
  show ?thesis using h1 h2 run_home h5 h6 a b by blast
qed

end
